theory Spec2Isabelle
  imports Main "HOL-Library.Multiset"
begin

section \<open>Strings\<close>

text \<open>
  A JavaScript string is modelled as the list of its code units, restricted to the
  code units below 256, so that a \<^typ>\<open>char\<close> is one code unit. The string methods the
  analyzer calls are written out below with the results ECMAScript gives them on such
  strings.
\<close>

definition startsWith :: "string \<Rightarrow> string \<Rightarrow> bool" where
  "startsWith s p = (take (length p) s = p)"

fun includesStr :: "string \<Rightarrow> string \<Rightarrow> bool" where
  "includesStr [] p = (p = [])"
| "includesStr (c # cs) p = (startsWith (c # cs) p \<or> includesStr cs p)"

definition endsWith :: "string \<Rightarrow> string \<Rightarrow> bool" where
  "endsWith s p = startsWith (rev s) (rev p)"

text \<open>\<open>s.indexOf(p)\<close>: the first position where \<open>p\<close> occurs, \<open>-1\<close> when there is none.\<close>

fun indexOf :: "string \<Rightarrow> string \<Rightarrow> int" where
  "indexOf [] p = (if p = [] then 0 else - 1)"
| "indexOf (c # cs) p =
     (if startsWith (c # cs) p then 0
      else (let i = indexOf cs p in if i < 0 then - 1 else i + 1))"

text \<open>\<open>s.slice(n)\<close>: a negative start counts from the end of the string.\<close>

definition sliceFrom :: "string \<Rightarrow> int \<Rightarrow> string" where
  "sliceFrom s n = (if n < 0 then drop (length s - nat (- n)) s else drop (nat n) s)"

text \<open>
  \<open>s.split(sep)\<close> for a non-empty separator: the pieces between the occurrences of
  \<open>sep\<close>, found from left to right without overlap. The counter is the number of code
  units of the current separator still to be skipped.
\<close>

fun splitGo :: "string \<Rightarrow> nat \<Rightarrow> string \<Rightarrow> string \<Rightarrow> string list" where
  "splitGo sep k cur [] = [cur]"
| "splitGo sep (Suc k) cur (c # cs) = splitGo sep k cur cs"
| "splitGo sep 0 cur (c # cs) =
     (if startsWith (c # cs) sep then cur # splitGo sep (length sep - 1) [] cs
      else splitGo sep 0 (cur @ [c]) cs)"

definition splitStr :: "string \<Rightarrow> string \<Rightarrow> string list" where
  "splitStr s sep = splitGo sep 0 [] s"

text \<open>
  The white space and line terminators that \<open>trim\<close> removes, among the code units
  below 256: tab, line feed, vertical tab, form feed, carriage return, space and
  no-break space.
\<close>

definition isWhiteSpace :: "char \<Rightarrow> bool" where
  "isWhiteSpace c = (c \<in> set [CHR 0x09, CHR 0x0A, CHR 0x0B, CHR 0x0C, CHR 0x0D, CHR 0x20, CHR 0xA0])"

definition trim :: "string \<Rightarrow> string" where
  "trim s = rev (dropWhile isWhiteSpace (rev (dropWhile isWhiteSpace s)))"

section \<open>Path segmenter\<close>

text \<open>\<open>cleanName\<close>, the local helper of \<open>processSymbol\<close>.\<close>

definition cleanName :: "string \<Rightarrow> string" where
  "cleanName str = (if str = [] then [] else trim str)"

text \<open>The condition of the \<open>while\<close> loop of \<open>processSymbol\<close>, in the order of the source.\<close>

definition startsKeyword :: "string \<Rightarrow> bool" where
  "startsKeyword symbol =
     (startsWith symbol ''void '' \<or>
      startsWith symbol ''auto '' \<or>
      startsWith symbol ''int '' \<or>
      startsWith symbol ''char '' \<or>
      startsWith symbol ''long '' \<or>
      startsWith symbol ''short '' \<or>
      startsWith symbol ''unsigned '' \<or>
      startsWith symbol ''float '' \<or>
      startsWith symbol ''double '' \<or>
      startsWith symbol ''bool '' \<or>
      startsWith symbol ''void*'' \<or>
      startsWith symbol ''char*'' \<or>
      startsWith symbol ''const '' \<or>
      startsWith symbol ''volatile '' \<or>
      startsWith symbol ''restrict '')"

text \<open>
  The loop itself. Nothing in the source bounds the number of iterations, so the loop
  is a partial function: \<open>None\<close> is the loop that never exits.
\<close>

partial_function (option) stripKeywords :: "string \<Rightarrow> string option" where
  "stripKeywords symbol =
     (if startsKeyword symbol
      then stripKeywords (sliceFrom symbol (indexOf symbol '' '' + 1))
      else Some symbol)"

declare stripKeywords.simps [code]

text \<open>The choice of the split strategy, after the loop.\<close>

definition splitParts :: "string \<Rightarrow> string list" where
  "splitParts symbol =
     (if startsWith symbol ''['' then [symbol]
      else if includesStr symbol ''.''
        then filter (\<lambda>p. p \<noteq> []) (map cleanName (splitStr symbol ''.''))
      else if includesStr symbol ''::''
        then filter (\<lambda>p. p \<noteq> []) (map cleanName (splitStr symbol ''::''))
      else [cleanName symbol])"

definition processSymbol :: "string \<Rightarrow> string list option" where
  "processSymbol symbol = map_option splitParts (stripKeywords symbol)"

text \<open>
  The tokens that the loop condition tests. It tests each of them with a space after
  it, except \<open>void*\<close> and \<open>char*\<close>, which it tests bare.
\<close>

definition keywordTokens :: "string list" where
  "keywordTokens =
     [''void'', ''auto'', ''int'', ''char'', ''long'', ''short'', ''unsigned'', ''float'',
      ''double'', ''bool'', ''void*'', ''char*'', ''const'', ''volatile'', ''restrict'']"

section \<open>Symbol classifier\<close>

text \<open>
  A value of unvalidated shape, as a CSV cell or an optional field can hold it. Numbers
  are the integers of the data model (sizes and counts); \<open>NaN\<close> and fractions are not
  represented.
\<close>

datatype jsval = JUndefined | JNull | JBool bool | JNum int | JStr string

text \<open>The five results of \<open>categorizeSymbol\<close>: \<open>C++\<close>, \<open>Rust\<close>, \<open>Zig\<close>, \<open>SYS-V\<close>, \<open>Other\<close>.\<close>

datatype category = CPP | Rust | Zig | SysV | Other

definition isLineTerminator :: "char \<Rightarrow> bool" where
  "isLineTerminator c = (c \<in> set [CHR 0x0A, CHR 0x0D])"

definition isDigit :: "char \<Rightarrow> bool" where
  "isDigit c = (c \<in> set ''0123456789'')"

definition isLowerHex :: "char \<Rightarrow> bool" where
  "isLowerHex c = (c \<in> set ''0123456789abcdef'')"

definition isUpperAZ :: "char \<Rightarrow> bool" where
  "isUpperAZ c = (c \<in> set ''ABCDEFGHIJKLMNOPQRSTUVWXYZ'')"

definition isLowerAlnum :: "char \<Rightarrow> bool" where
  "isLowerAlnum c = (c \<in> set ''abcdefghijklmnopqrstuvwxyz0123456789'')"

text \<open>\<open>/^\[.*\]/\<close>: the dot matches no line terminator.\<close>

definition matchBracketed :: "string \<Rightarrow> bool" where
  "matchBracketed s =
     (case s of [] \<Rightarrow> False
      | c # cs \<Rightarrow> c = CHR ''['' \<and> CHR '']'' \<in> set (takeWhile (\<lambda>x. \<not> isLineTerminator x) cs))"

text \<open>\<open>/^_[A-Z_]/\<close>\<close>

definition matchUnderscoreCapital :: "string \<Rightarrow> bool" where
  "matchUnderscoreCapital s =
     (case s of a # b # _ \<Rightarrow> a = CHR ''_'' \<and> (isUpperAZ b \<or> b = CHR ''_'') | _ \<Rightarrow> False)"

text \<open>\<open>/h[0-9a-f]{16}/\<close>\<close>

fun matchHash :: "string \<Rightarrow> bool" where
  "matchHash [] = False"
| "matchHash (c # cs) =
     ((c = CHR ''h'' \<and> 16 \<le> length cs \<and> list_all isLowerHex (take 16 cs)) \<or> matchHash cs)"

text \<open>\<open>/::[a-z0-9]{2}_/\<close>\<close>

fun matchColonPair :: "string \<Rightarrow> bool" where
  "matchColonPair [] = False"
| "matchColonPair (c # cs) =
     ((startsWith (c # cs) ''::'' \<and>
       (case drop 2 (c # cs) of
          a # b # u # _ \<Rightarrow> isLowerAlnum a \<and> isLowerAlnum b \<and> u = CHR ''_''
        | _ \<Rightarrow> False))
      \<or> matchColonPair cs)"

text \<open>\<open>/<.*>/\<close>\<close>

fun matchAngles :: "string \<Rightarrow> bool" where
  "matchAngles [] = False"
| "matchAngles (c # cs) =
     ((c = CHR ''<'' \<and> CHR ''>'' \<in> set (takeWhile (\<lambda>x. \<not> isLineTerminator x) cs))
      \<or> matchAngles cs)"

text \<open>\<open>/^[A-Z][^.]*_t$/\<close>: the negated class also matches line terminators.\<close>

definition matchTypeName :: "string \<Rightarrow> bool" where
  "matchTypeName s =
     (case s of [] \<Rightarrow> False
      | c # cs \<Rightarrow> isUpperAZ c \<and> endsWith cs ''_t'' \<and> CHR ''.'' \<notin> set cs)"

text \<open>The four groups of tests of \<open>categorizeSymbol\<close>, each in the order of the source.\<close>

definition sysvSymbol :: "string \<Rightarrow> bool" where
  "sysvSymbol fullPath =
     (matchBracketed fullPath \<or>
      includesStr fullPath ''__'' \<or>
      endsWith fullPath ''.dynsym'' \<or>
      matchUnderscoreCapital fullPath \<or>
      includesStr fullPath ''_Prototype__'')"

definition rustSymbol :: "string \<Rightarrow> bool" where
  "rustSymbol fullPath =
     (matchHash fullPath \<or>
      includesStr fullPath ''_rs::'' \<or>
      startsWith fullPath ''rust_'' \<or>
      (includesStr fullPath ''::_$'' \<or> matchColonPair fullPath) \<or>
      includesStr fullPath ''$u20$'' \<or>
      (includesStr fullPath ''$LT$'' \<or> includesStr fullPath ''$GT$'') \<or>
      includesStr fullPath ''lol_html'')"

definition cppSymbol :: "string \<Rightarrow> bool" where
  "cppSymbol fullPath =
     (includesStr fullPath ''::'' \<or>
      matchAngles fullPath \<or>
      includesStr fullPath ''namespace'' \<or>
      matchTypeName fullPath)"

definition zigSymbol :: "string \<Rightarrow> bool" where
  "zigSymbol fullPath = includesStr fullPath ''.''"

text \<open>
  \<open>categorizeSymbol\<close>. The first test, \<open>!fullPath || typeof fullPath !== "string"\<close>,
  sends every value that is not a non-empty string to \<open>Other\<close>.
\<close>

definition categorizeSymbol :: "jsval \<Rightarrow> category" where
  "categorizeSymbol v =
     (case v of
        JStr fullPath \<Rightarrow>
          if fullPath = [] then Other
          else if sysvSymbol fullPath then SysV
          else if rustSymbol fullPath then Rust
          else if cppSymbol fullPath then CPP
          else if zigSymbol fullPath then Zig
          else Other
      | _ \<Rightarrow> Other)"

section \<open>Tree nodes and the filter predicate\<close>

text \<open>
  \<open>TreeNode\<close>. The \<open>children\<close> object is the list of its own properties, key and child,
  in the order of insertion; the optional fields are options. (JavaScript enumerates
  keys that are array indices before the others; the sums, lookups and counts below do
  not depend on the order of enumeration.)
\<close>

datatype TreeNode = TreeNode
  (node_name: string)
  (node_size: int)
  (node_children: "(string \<times> TreeNode) list")
  (node_fullPath: "string option")
  (node_originalSymbol: "string option")
  (node_instantiations: "int option")

text \<open>An optional string field as a value.\<close>

definition optStr :: "string option \<Rightarrow> jsval" where
  "optStr v = (case v of None \<Rightarrow> JUndefined | Some s \<Rightarrow> JStr s)"

text \<open>
  \<open>toLowerCase\<close> on code units below 256: the letters A to Z and the capital letters
  of the Latin-1 block (0xC0 to 0xDE without the multiplication sign 0xD7) move up by 32.
\<close>

definition toLowerChar :: "char \<Rightarrow> char" where
  "toLowerChar c =
     (let n = (of_char c :: nat)
      in if (65 \<le> n \<and> n \<le> 90) \<or> (192 \<le> n \<and> n \<le> 222 \<and> n \<noteq> 215)
         then char_of (n + 32) else c)"

definition toLowerCase :: "string \<Rightarrow> string" where
  "toLowerCase s = map toLowerChar s"

text \<open>
  \<open>node.fullPath || node.originalSymbol || node.name\<close>: an absent or empty string is
  falsy and gives way to the next operand.
\<close>

definition searchText :: "TreeNode \<Rightarrow> string" where
  "searchText node =
     (case node_fullPath node of
        Some p \<Rightarrow> if p \<noteq> [] then p else
          (case node_originalSymbol node of
             Some q \<Rightarrow> if q \<noteq> [] then q else node_name node
           | None \<Rightarrow> node_name node)
      | None \<Rightarrow>
          (case node_originalSymbol node of
             Some q \<Rightarrow> if q \<noteq> [] then q else node_name node
           | None \<Rightarrow> node_name node))"

text \<open>
  \<open>matchesFilters\<close>, with the component state it reads (\<open>minSize\<close>, \<open>activeFilters\<close>,
  \<open>searchTerm\<close>) as arguments.
\<close>

definition matchesFilters :: "int \<Rightarrow> category set \<Rightarrow> string \<Rightarrow> TreeNode \<Rightarrow> bool" where
  "matchesFilters minSize activeFilters searchTerm node =
     (if node_size node < minSize then False
      else
        (let category = categorizeSymbol (optStr (node_originalSymbol node));
             matchesCategory = (activeFilters = {} \<or> category \<in> activeFilters);
             searchLower = toLowerCase searchTerm;
             matchesSearch =
               (searchTerm = [] \<or> includesStr (toLowerCase (searchText node)) searchLower)
         in matchesCategory \<and> matchesSearch))"

section \<open>Row normalizer\<close>

text \<open>
  A row as the CSV parser hands it over: every cell is a value of unvalidated shape,
  \<open>JUndefined\<close> for a missing column.
\<close>

record RawRow =
  raw_symbols :: jsval
  raw_vmsize :: jsval
  raw_instantiations :: jsval

definition truthy :: "jsval \<Rightarrow> bool" where
  "truthy v =
     (case v of JUndefined \<Rightarrow> False | JNull \<Rightarrow> False | JBool b \<Rightarrow> b
      | JNum n \<Rightarrow> n \<noteq> 0 | JStr s \<Rightarrow> s \<noteq> [])"

definition isString :: "jsval \<Rightarrow> bool" where
  "isString v = (case v of JStr s \<Rightarrow> True | _ \<Rightarrow> False)"

definition isNumber :: "jsval \<Rightarrow> bool" where
  "isNumber v = (case v of JNum n \<Rightarrow> True | _ \<Rightarrow> False)"

text \<open>
  The callback of \<open>filter\<close> in \<open>processFile\<close>. Its first test, that the row is an
  object, holds of every \<open>RawRow\<close>.
\<close>

definition keepRow :: "RawRow \<Rightarrow> bool" where
  "keepRow row =
     (if \<not> truthy (raw_symbols row) \<or> \<not> isString (raw_symbols row) then False
      else if \<not> truthy (raw_vmsize row) \<or> isNumber (raw_vmsize row) then True
      else False)"

text \<open>
  \<open>ToNumber\<close> on the values that pass the filter as \<open>vmsize\<close>: a number, or a falsy
  value. \<open>None\<close> is \<open>NaN\<close>. (A non-empty string never reaches the comparison; it is
  read as \<open>NaN\<close> here.)
\<close>

definition toNumber :: "jsval \<Rightarrow> int option" where
  "toNumber v =
     (case v of JUndefined \<Rightarrow> None | JNull \<Rightarrow> Some 0
      | JBool b \<Rightarrow> Some (if b then 1 else 0)
      | JNum n \<Rightarrow> Some n
      | JStr s \<Rightarrow> if s = [] then Some 0 else None)"

definition strOf :: "jsval \<Rightarrow> string" where
  "strOf v = (case v of JStr s \<Rightarrow> s | _ \<Rightarrow> [])"

text \<open>
  The comparator of \<open>sort\<close>. \<open>localeCompare\<close> belongs to the runtime and depends on
  its locale, so it is the parameter \<open>lc\<close>. A comparator result \<open>NaN\<close> counts as \<open>0\<close>
  for \<open>sort\<close>.
\<close>

definition compareRows :: "(string \<Rightarrow> string \<Rightarrow> int) \<Rightarrow> RawRow \<Rightarrow> RawRow \<Rightarrow> int" where
  "compareRows lc a b =
     (if raw_vmsize b = raw_vmsize a
      then lc (strOf (raw_symbols a)) (strOf (raw_symbols b))
      else (case (toNumber (raw_vmsize b), toNumber (raw_vmsize a)) of
              (Some x, Some y) \<Rightarrow> x - y
            | _ \<Rightarrow> 0))"

text \<open>
  \<open>Array.prototype.sort\<close> is a stable sort: \<open>a\<close> comes before \<open>b\<close> when the
  comparator is negative, and elements that compare equal keep their order. For a
  consistent comparator that fixes the result, which the insertion sort below computes.
  For a comparator that is not consistent the standard leaves the order to the
  implementation, and the insertion sort need not give the order of the runtime; what is
  stated about the order of the rows is stated for a consistent comparator.
\<close>

fun insertSorted :: "('a \<Rightarrow> 'a \<Rightarrow> int) \<Rightarrow> 'a \<Rightarrow> 'a list \<Rightarrow> 'a list" where
  "insertSorted cmp x [] = [x]"
| "insertSorted cmp x (y # ys) =
     (if cmp x y \<le> 0 then x # y # ys else y # insertSorted cmp x ys)"

definition sortBy :: "('a \<Rightarrow> 'a \<Rightarrow> int) \<Rightarrow> 'a list \<Rightarrow> 'a list" where
  "sortBy cmp xs = foldr (insertSorted cmp) xs []"

definition normalizeRows :: "(string \<Rightarrow> string \<Rightarrow> int) \<Rightarrow> RawRow list \<Rightarrow> RawRow list" where
  "normalizeRows lc rows = sortBy (compareRows lc) (filter keepRow rows)"

section \<open>Instantiation collapser\<close>

text \<open>
  \<open>CSVRow\<close> with the types the interface declares. A kept row is read at these types:
  its name is a string; \<open>instantiations ?? 0\<close> and \<open>instantiations ??= 0\<close> are applied
  here, once, so an absent count is \<open>0\<close>. The arithmetic of the later stages is integer
  arithmetic, which is what JavaScript does when \<open>vmsize\<close> and \<open>instantiations\<close> are
  numbers. The reading is exact for the rows of the declared types (\<open>declaredTypes\<close>
  below): \<open>vmsize\<close> a number, and \<open>instantiations\<close> a number, \<open>null\<close> or absent. A kept
  row outside them is read with \<open>0\<close> in the place of the value that is no number, where
  the source computes with the value itself (\<open>NaN\<close> from an absent \<open>vmsize\<close>, \<open>1\<close> from
  the count \<open>true\<close>); what is stated about the sizes and counts of a build is stated
  for rows of the declared types.
\<close>

record CSVRow =
  symbols :: string
  vmsize :: int
  instantiations :: int

definition numOf :: "jsval \<Rightarrow> int" where
  "numOf v = (case v of JNum n \<Rightarrow> n | _ \<Rightarrow> 0)"

definition toCSVRow :: "RawRow \<Rightarrow> CSVRow" where
  "toCSVRow row =
     \<lparr> symbols = strOf (raw_symbols row),
       vmsize = numOf (raw_vmsize row),
       instantiations = numOf (raw_instantiations row) \<rparr>"

text \<open>
  \<open>replaceAll\<close> of a regular expression by the empty string: the matches are found from
  left to right without overlap. The matcher gives the length of the match that starts
  at the head of the rest of the string, \<open>0\<close> for none; the counter is the number of
  code units of the current match still to be dropped.
\<close>

fun removeMatches :: "(string \<Rightarrow> nat) \<Rightarrow> nat \<Rightarrow> string \<Rightarrow> string" where
  "removeMatches m k [] = []"
| "removeMatches m (Suc k) (c # cs) = removeMatches m k cs"
| "removeMatches m 0 (c # cs) =
     (case m (c # cs) of
        0 \<Rightarrow> c # removeMatches m 0 cs
      | Suc n \<Rightarrow> removeMatches m n cs)"

text \<open>
  \<open>$\<close>: the end of the input, and with the flag \<open>m\<close> also the position before a line
  terminator.
\<close>

definition atEnd :: "bool \<Rightarrow> string \<Rightarrow> bool" where
  "atEnd multiline rest =
     (case rest of [] \<Rightarrow> True | c # _ \<Rightarrow> multiline \<and> isLineTerminator c)"

text \<open>
  \<open>lit[0-9]+$\<close> at the head of \<open>s\<close>. The digits are matched greedily; giving one back
  leaves a digit where \<open>$\<close> must hold, so only the longest run can match.
\<close>

definition matchNumbered :: "string \<Rightarrow> bool \<Rightarrow> string \<Rightarrow> nat" where
  "matchNumbered lit multiline s =
     (if startsWith s lit then
        (let r = drop (length lit) s; d = length (takeWhile isDigit r)
         in if 0 < d \<and> atEnd multiline (drop d r) then length lit + d else 0)
      else 0)"

text \<open>\<open>/__anon_([0-9]+)__struct_([0-9]+)$/\<close> at the head of \<open>s\<close>.\<close>

definition matchAnonStruct :: "string \<Rightarrow> nat" where
  "matchAnonStruct s =
     (if startsWith s ''__anon_'' then
        (let r = drop 7 s; d = length (takeWhile isDigit r)
         in if 0 < d then
              (case matchNumbered ''__struct_'' False (drop d r) of
                 0 \<Rightarrow> 0
               | Suc n \<Rightarrow> 7 + d + Suc n)
            else 0)
      else 0)"

text \<open>The three \<open>replaceAll\<close> calls of the dedup loop, in the order of the source.\<close>

definition canonicalName :: "string \<Rightarrow> string" where
  "canonicalName s =
     removeMatches (matchNumbered ''__anon_'' True) 0
       (removeMatches matchAnonStruct 0
         (removeMatches (matchNumbered ''__struct_'' True) 0 s))"

text \<open>
  A \<open>Map\<close> with string keys: the list of its entries in the order of insertion.
  \<open>set\<close> on a key that is present replaces the value where it stands.
\<close>

fun mapSet :: "(string \<times> 'a) list \<Rightarrow> string \<Rightarrow> 'a \<Rightarrow> (string \<times> 'a) list" where
  "mapSet [] k v = [(k, v)]"
| "mapSet ((k', v') # m) k v = (if k' = k then (k, v) # m else (k', v') # mapSet m k v)"

text \<open>One iteration of the dedup loop.\<close>

definition dedupStep :: "CSVRow \<Rightarrow> (string \<times> CSVRow) list \<Rightarrow> (string \<times> CSVRow) list" where
  "dedupStep symbol dedupedSymbols =
     (let name = canonicalName (symbols symbol) in
      case map_of dedupedSymbols name of
        Some existing \<Rightarrow>
          mapSet dedupedSymbols name
            (existing\<lparr> vmsize := vmsize existing + vmsize symbol,
                       instantiations := instantiations existing + (instantiations symbol + 1) \<rparr>)
      | None \<Rightarrow>
          (let symbol' = (if \<not> (name = ''_'' \<and> name \<noteq> symbols symbol)
                          then symbol\<lparr> symbols := name \<rparr> else symbol)
           in mapSet dedupedSymbols (symbols symbol') symbol'))"

definition dedupSymbols :: "CSVRow list \<Rightarrow> CSVRow list" where
  "dedupSymbols sortedSymbols = map snd (fold dedupStep sortedSymbols [])"

section \<open>Tree builder\<close>

text \<open>
  The \<open>children\<close> of a node are a plain object, and \<open>children[part]\<close> reads a property
  of that object: its own property when it has one with this key, else the property
  it inherits from \<open>Object.prototype\<close>. These are the property names of
  \<open>Object.prototype\<close>; the value of each is a function or an object, so it is truthy.
\<close>

definition objectPrototypeKeys :: "string list" where
  "objectPrototypeKeys =
     [''constructor'', ''__defineGetter__'', ''__defineSetter__'', ''hasOwnProperty'',
      ''__lookupGetter__'', ''__lookupSetter__'', ''isPrototypeOf'', ''propertyIsEnumerable'',
      ''toString'', ''valueOf'', ''__proto__'', ''toLocaleString'']"

text \<open>
  What \<open>children[part]\<close> finds: a child of the node, an inherited property, or nothing
  (\<open>undefined\<close>).
\<close>

datatype lookupResult = OwnChild TreeNode | Inherited | Absent

definition lookupChild :: "(string \<times> TreeNode) list \<Rightarrow> string \<Rightarrow> lookupResult" where
  "lookupChild children part =
     (case map_of children part of
        Some child \<Rightarrow> OwnChild child
      | None \<Rightarrow> if part \<in> set objectPrototypeKeys then Inherited else Absent)"

text \<open>
  The body of \<open>parts.forEach\<close> for one record, from the part at hand to the last one.
  \<open>current\<close> is the node the walk stands on, \<open>path\<close> the path built so far; the result
  is \<open>current\<close> with what the rest of the walk has written below it. The part is the
  last one (\<open>i === parts.length - 1\<close>) when no part follows it.

  When \<open>children[part]\<close> is an inherited property, no child is created, and the walk
  goes on from that property's value, an object of the runtime outside the hierarchy:
  whatever the rest of the walk writes, it writes there. The model stops the walk at
  that part and gives back the hierarchy as it is, with \<open>Object.prototype\<close> as the
  runtime provides it. This is exact as long as no walk has gone on past an inherited
  property: a walk that does can give \<open>Object.prototype\<close> a property of its own making
  (the parts \<open>__proto__\<close>, \<open>x\<close> give it \<open>children\<close>), which the lookups of later
  records find, and the model does not follow that. So the model is exact for the
  record lists in which no part of a record is a property name of \<open>Object.prototype\<close>,
  and for the lists in which only the last part of the last record is one; what is
  stated about the hierarchy of every build is stated for the former.
\<close>

fun insertParts :: "CSVRow \<Rightarrow> string \<Rightarrow> string list \<Rightarrow> TreeNode \<Rightarrow> TreeNode" where
  "insertParts symbol path [] current = current"
| "insertParts symbol path (part # rest) current =
     (if part = [] then insertParts symbol path rest current
      else
        (let path' = (if path \<noteq> [] then path @ ''::'' @ part else part);
             found =
               (case lookupChild (node_children current) part of
                  OwnChild child \<Rightarrow> Some child
                | Inherited \<Rightarrow> None
                | Absent \<Rightarrow>
                    Some (TreeNode part 0 [] (Some path') (Some (symbols symbol)) (Some 0)))
         in case found of
              None \<Rightarrow> current
            | Some child \<Rightarrow>
                (let child' =
                       (if rest = [] then
                          TreeNode (node_name child) (node_size child + vmsize symbol)
                            (node_children child) (node_fullPath child)
                            (node_originalSymbol child)
                            (map_option (\<lambda>c. c + instantiations symbol) (node_instantiations child))
                        else child)
                 in TreeNode (node_name current) (node_size current)
                      (mapSet (node_children current) part (insertParts symbol path' rest child'))
                      (node_fullPath current) (node_originalSymbol current)
                      (node_instantiations current))))"

text \<open>
  \<open>sortedSymbols.forEach\<close>: one record after the other. A record on which
  \<open>processSymbol\<close> does not return stops the build for good.
\<close>

fun insertSymbols :: "CSVRow list \<Rightarrow> TreeNode \<Rightarrow> TreeNode option" where
  "insertSymbols [] root = Some root"
| "insertSymbols (symbol # rest) root =
     (case processSymbol (symbols symbol) of
        None \<Rightarrow> None
      | Some parts \<Rightarrow> insertSymbols rest (insertParts symbol [] parts root))"

text \<open>
  \<open>calculateTotalSize\<close>: the node with its size and the sizes below it replaced by the
  totals; the number the source returns is the size of the result.
\<close>

fun calculateTotalSize :: "TreeNode \<Rightarrow> TreeNode"
  and calculateChildren :: "(string \<times> TreeNode) list \<Rightarrow> (string \<times> TreeNode) list" where
  "calculateTotalSize (TreeNode name sz children fullPath originalSymbol insts) =
     (let children' = calculateChildren children
      in TreeNode name (sz + sum_list (map (\<lambda>kc. node_size (snd kc)) children'))
           children' fullPath originalSymbol insts)"
| "calculateChildren [] = []"
| "calculateChildren ((key, child) # rest) =
     (key, calculateTotalSize child) # calculateChildren rest"

definition emptyRoot :: TreeNode where
  "emptyRoot = TreeNode ''root'' 0 [] None None (Some 0)"

text \<open>
  The \<open>complete\<close> handler of \<open>processFile\<close>, from the parsed rows to the tree handed
  to \<open>setHierarchy\<close>. \<open>None\<close>: the handler does not return.
\<close>

definition processFile :: "(string \<Rightarrow> string \<Rightarrow> int) \<Rightarrow> RawRow list \<Rightarrow> TreeNode option" where
  "processFile lc rows =
     (let sortedSymbols = map toCSVRow (normalizeRows lc rows);
          dedupedSymbols = dedupSymbols sortedSymbols
      in map_option calculateTotalSize (insertSymbols dedupedSymbols emptyRoot))"

section \<open>Variant merger\<close>

record SymbolGroup =
  group_name :: string
  group_size :: int
  group_count :: int
  group_originalSymbols :: "string list"
  group_instantiations :: int

text \<open>The two \<open>replaceAll\<close> calls of \<open>processNode\<close> and those of \<open>transformNode\<close>.\<close>

definition leafBaseName :: "string \<Rightarrow> string" where
  "leafBaseName nodeName =
     removeMatches (matchNumbered ''__anon_'' False) 0
       (removeMatches matchAnonStruct 0 nodeName)"

definition nodeBaseName :: "string \<Rightarrow> string" where
  "nodeBaseName nodeName =
     removeMatches matchAnonStruct 0
       (removeMatches (matchNumbered ''__anon_'' True) 0 nodeName)"

text \<open>What \<open>processNode\<close> does with a leaf.\<close>

definition addLeaf :: "TreeNode \<Rightarrow> (string \<times> SymbolGroup) list \<Rightarrow> (string \<times> SymbolGroup) list" where
  "addLeaf node groups =
     (let baseName = leafBaseName (node_name node) in
      if baseName \<noteq> [] then
        (let grp = (case map_of groups baseName of
                      Some g \<Rightarrow> g
                    | None \<Rightarrow> \<lparr> group_name = baseName, group_size = 0, group_count = 0,
                                group_originalSymbols = [], group_instantiations = 0 \<rparr>)
         in mapSet groups baseName
              \<lparr> group_name = group_name grp,
                group_size = group_size grp + node_size node,
                group_count = group_count grp + 1,
                group_originalSymbols =
                  (case node_originalSymbol node of
                     Some os \<Rightarrow> if os \<noteq> [] then group_originalSymbols grp @ [os]
                               else group_originalSymbols grp
                   | None \<Rightarrow> group_originalSymbols grp),
                group_instantiations = group_instantiations grp + 1 \<rparr>)
      else groups)"

fun processNode :: "TreeNode \<Rightarrow> (string \<times> SymbolGroup) list \<Rightarrow> (string \<times> SymbolGroup) list"
  and processNodes :: "(string \<times> TreeNode) list \<Rightarrow> (string \<times> SymbolGroup) list \<Rightarrow> (string \<times> SymbolGroup) list" where
  "processNode (TreeNode name sz children fullPath originalSymbol insts) groups =
     processNodes children
       (if children = []
        then addLeaf (TreeNode name sz children fullPath originalSymbol insts) groups
        else groups)"
| "processNodes [] groups = groups"
| "processNodes ((key, child) # rest) groups = processNodes rest (processNode child groups)"

text \<open>
  \<open>transformedChildren[result.name] = result\<close> on a plain object: the key
  \<open>__proto__\<close> sets the prototype of the object and adds no property.
\<close>

definition assignProp :: "(string \<times> TreeNode) list \<Rightarrow> string \<Rightarrow> TreeNode \<Rightarrow> (string \<times> TreeNode) list" where
  "assignProp obj key v = (if key = ''__proto__'' then obj else mapSet obj key v)"

fun transformNode :: "(string \<times> SymbolGroup) list \<Rightarrow> TreeNode \<Rightarrow> TreeNode"
  and transformChildren :: "(string \<times> SymbolGroup) list \<Rightarrow> (string \<times> TreeNode) list \<Rightarrow> (string \<times> TreeNode) list \<Rightarrow> (string \<times> TreeNode) list" where
  "transformNode groups (TreeNode name sz children fullPath originalSymbol insts) =
     TreeNode name sz (transformChildren groups children []) fullPath originalSymbol
       (case map_of groups (nodeBaseName name) of
          Some grp \<Rightarrow> if group_count grp \<noteq> 0 then Some (group_count grp) else insts
        | None \<Rightarrow> insts)"
| "transformChildren groups [] transformedChildren = transformedChildren"
| "transformChildren groups ((key, child) # rest) transformedChildren =
     (let result = transformNode groups child
      in transformChildren groups rest (assignProp transformedChildren (node_name result) result))"

definition collectGroups :: "TreeNode list \<Rightarrow> (string \<times> SymbolGroup) list" where
  "collectGroups nodes = fold processNode nodes []"

definition mergeInstantiations :: "TreeNode list \<Rightarrow> TreeNode list" where
  "mergeInstantiations nodes = map (transformNode (collectGroups nodes)) nodes"

section \<open>Notions of the statements\<close>

text \<open>
  A name that ends in a Rust hash: the letter \<open>h\<close> and 16 lower-case hexadecimal
  digits.
\<close>

definition hashSuffix :: "string \<Rightarrow> bool" where
  "hashSuffix s =
     (case drop (length s - 17) s of
        [] \<Rightarrow> False
      | c # h \<Rightarrow> c = CHR ''h'' \<and> length h = 16 \<and> list_all isLowerHex h)"

text \<open>A bracket-only name: a single line that opens with \<open>[\<close> and closes with \<open>]\<close>.\<close>

definition bracketOnly :: "string \<Rightarrow> bool" where
  "bracketOnly s =
     (case s of
        [] \<Rightarrow> False
      | c # cs \<Rightarrow> c = CHR ''['' \<and> cs \<noteq> [] \<and> last cs = CHR '']'' \<and>
                 list_all (\<lambda>x. \<not> isLineTerminator x) cs)"


text \<open>
  A comparator to run the model with: the comparison of two strings by their code
  units, with the results \<open>-1\<close>, \<open>0\<close>, \<open>1\<close>.
\<close>

fun codeUnitCompare :: "string \<Rightarrow> string \<Rightarrow> int" where
  "codeUnitCompare [] [] = 0"
| "codeUnitCompare [] (y # ys) = - 1"
| "codeUnitCompare (x # xs) [] = 1"
| "codeUnitCompare (x # xs) (y # ys) =
     (if x = y then codeUnitCompare xs ys
      else if (of_char x :: nat) < of_char y then - 1 else 1)"

text \<open>
  What \<open>sort\<close> asks of a comparator: swapping the arguments swaps the sign, and the
  order it gives is transitive.
\<close>

definition consistentCompare :: "(string \<Rightarrow> string \<Rightarrow> int) \<Rightarrow> bool" where
  "consistentCompare lc =
     ((\<forall>x y. lc x y < 0 \<longleftrightarrow> 0 < lc y x) \<and>
      (\<forall>x y z. lc x y \<le> 0 \<and> lc y z \<le> 0 \<longrightarrow> lc x z \<le> 0))"

text \<open>
  The order of the normalized rows: the larger size first, and among equal sizes the
  name that \<open>lc\<close> puts first. The size of a row is its \<open>vmsize\<close> when that is a number
  and \<open>0\<close> otherwise.
\<close>

definition rowOrder :: "(string \<Rightarrow> string \<Rightarrow> int) \<Rightarrow> RawRow \<Rightarrow> RawRow \<Rightarrow> bool" where
  "rowOrder lc a b =
     (numOf (raw_vmsize b) < numOf (raw_vmsize a) \<or>
      (numOf (raw_vmsize a) = numOf (raw_vmsize b) \<and>
       lc (strOf (raw_symbols a)) (strOf (raw_symbols b)) \<le> 0))"

text \<open>A row with a name, a size and a count, all of the declared types.\<close>

definition csvRow :: "string \<Rightarrow> int \<Rightarrow> int \<Rightarrow> RawRow" where
  "csvRow s v i = \<lparr> raw_symbols = JStr s, raw_vmsize = JNum v, raw_instantiations = JNum i \<rparr>"

text \<open>
  The rows of a list whose name strips to the canonical name \<open>c\<close>, and the one record
  that stands for them: the name \<open>c\<close>, the sizes added up, and the counts added up with
  one more for every row but the first.
\<close>

definition groupRows :: "string \<Rightarrow> CSVRow list \<Rightarrow> CSVRow list" where
  "groupRows c rows = filter (\<lambda>r. canonicalName (symbols r) = c) rows"

definition groupRecord :: "string \<Rightarrow> CSVRow list \<Rightarrow> CSVRow" where
  "groupRecord c rows =
     \<lparr> symbols = c,
       vmsize = sum_list (map vmsize (groupRows c rows)),
       instantiations =
         sum_list (map instantiations (groupRows c rows)) + (int (length (groupRows c rows)) - 1) \<rparr>"

text \<open>What the map of the dedup loop holds after the rows of a list.\<close>

definition dedupInv :: "CSVRow list \<Rightarrow> (string \<times> CSVRow) list \<Rightarrow> bool" where
  "dedupInv rows m =
     (distinct (map fst m) \<and>
      (\<forall>(k, v) \<in> set m. symbols v = k) \<and>
      (\<forall>c. map_of m c =
         (if c \<in> (\<lambda>r. canonicalName (symbols r)) ` set rows
          then Some (groupRecord c rows) else None)))"

text \<open>
  The trees of the data model: the children of every node have distinct keys, and every
  child is stored under its own name, which is not \<open>__proto__\<close>.
\<close>

fun keyedByName :: "TreeNode \<Rightarrow> bool"
  and keyedChildren :: "(string \<times> TreeNode) list \<Rightarrow> bool" where
  "keyedByName (TreeNode name sz children fullPath originalSymbol insts) =
     (distinct (map fst children) \<and> keyedChildren children)"
| "keyedChildren [] = True"
| "keyedChildren ((key, child) # rest) =
     (key = node_name child \<and> key \<noteq> ''__proto__'' \<and> keyedByName child \<and> keyedChildren rest)"



text \<open>
  What the builder keeps true of its tree: every node has a count, and no child is stored
  under a property name of \<open>Object.prototype\<close>.
\<close>

fun builderTree :: "TreeNode \<Rightarrow> bool"
  and builderChildren :: "(string \<times> TreeNode) list \<Rightarrow> bool" where
  "builderTree (TreeNode name sz children fullPath originalSymbol insts) =
     (insts \<noteq> None \<and> builderChildren children)"
| "builderChildren [] = True"
| "builderChildren ((key, child) # rest) =
     (key \<notin> set objectPrototypeKeys \<and> builderTree child \<and> builderChildren rest)"

text \<open>The sum of the sizes of all nodes of a tree.\<close>

fun ownTotal :: "TreeNode \<Rightarrow> int"
  and ownTotalList :: "(string \<times> TreeNode) list \<Rightarrow> int" where
  "ownTotal (TreeNode name sz children fullPath originalSymbol insts) = sz + ownTotalList children"
| "ownTotalList [] = 0"
| "ownTotalList ((key, child) # rest) = ownTotal child + ownTotalList rest"

text \<open>The segments of a record are its non-empty parts.\<close>

definition segments :: "string list \<Rightarrow> string list" where
  "segments parts = filter (\<lambda>p. p \<noteq> []) parts"

text \<open>The node at the end of a path of child keys.\<close>

fun nodeAt :: "TreeNode \<Rightarrow> string list \<Rightarrow> TreeNode option" where
  "nodeAt t [] = Some t"
| "nodeAt t (p # ps) =
     (case map_of (node_children t) p of None \<Rightarrow> None | Some c \<Rightarrow> nodeAt c ps)"

text \<open>The canonical records of a build, in the order of their insertion.\<close>

definition canonicalRecords :: "(string \<Rightarrow> string \<Rightarrow> int) \<Rightarrow> RawRow list \<Rightarrow> CSVRow list" where
  "canonicalRecords lc rows = dedupSymbols (map toCSVRow (normalizeRows lc rows))"

text \<open>
  The rows that the later stages read exactly: the size is a number, and the count is a
  number or absent, as the interface \<open>CSVRow\<close> declares them.
\<close>

definition declaredTypes :: "RawRow \<Rightarrow> bool" where
  "declaredTypes row =
     (isNumber (raw_vmsize row) \<and>
      (isNumber (raw_instantiations row) \<or> raw_instantiations row = JNull \<or>
       raw_instantiations row = JUndefined))"

text \<open>
  The path of a canonical record, the paths it passes through (its initial pieces), and
  the full path key of a path: its segments joined by \<open>::\<close>.
\<close>

definition segmentsOf :: "CSVRow \<Rightarrow> string list" where
  "segmentsOf r = (case processSymbol (symbols r) of None \<Rightarrow> [] | Some parts \<Rightarrow> segments parts)"

definition passesThrough :: "string list \<Rightarrow> CSVRow \<Rightarrow> bool" where
  "passesThrough ps r = (take (length ps) (segmentsOf r) = ps)"

definition joinFrom :: "string \<Rightarrow> string list \<Rightarrow> string" where
  "joinFrom path ps = foldl (\<lambda>p part. if p \<noteq> [] then p @ ''::'' @ part else part) path ps"

definition joinPath :: "string list \<Rightarrow> string" where
  "joinPath ps = joinFrom [] ps"

text \<open>Parts none of which is empty or a property name of \<open>Object.prototype\<close>.\<close>

definition goodParts :: "string list \<Rightarrow> bool" where
  "goodParts parts = (\<forall>p \<in> set parts. p \<noteq> [] \<and> p \<notin> set objectPrototypeKeys)"

text \<open>
  The fields of a node other than its children, the fields of the node at a path, and
  the sum of the sizes in the subtree at a path.
\<close>

type_synonym nodeFields = "string \<times> int \<times> string option \<times> string option \<times> int option"

definition ownFields :: "TreeNode \<Rightarrow> nodeFields" where
  "ownFields n =
     (node_name n, node_size n, node_fullPath n, node_originalSymbol n, node_instantiations n)"

definition fieldsAt :: "TreeNode \<Rightarrow> string list \<Rightarrow> nodeFields option" where
  "fieldsAt t ps = map_option ownFields (nodeAt t ps)"

definition subtreeTotal :: "TreeNode \<Rightarrow> string list \<Rightarrow> int" where
  "subtreeTotal t ps = (case nodeAt t ps of None \<Rightarrow> 0 | Some n \<Rightarrow> ownTotal n)"

text \<open>
  The fields of a node as the walk of a record creates it at a path, and the fields of
  a node after the size and count of a record are added.
\<close>

definition freshFields :: "string \<Rightarrow> string list \<Rightarrow> CSVRow \<Rightarrow> nodeFields" where
  "freshFields path ps symbol =
     (last ps, 0, Some (joinFrom path ps), Some (symbols symbol), Some 0)"

definition addTo :: "CSVRow \<Rightarrow> nodeFields \<Rightarrow> nodeFields" where
  "addTo symbol f =
     (case f of (nm, sz, fp, os, c) \<Rightarrow>
        (nm, sz + vmsize symbol, fp, os, map_option (\<lambda>c. c + instantiations symbol) c))"

section \<open>Properties of the segmenter\<close>

lemma stripKeywords_stuck:
  assumes "stripKeywords s = Some y"
  shows "\<not> (startsKeyword s \<and> sliceFrom s (indexOf s '' '' + 1) = s)"
proof (rule stripKeywords.raw_induct
    [where P = "\<lambda>s y. \<not> (startsKeyword s \<and> sliceFrom s (indexOf s '' '' + 1) = s)", OF _ assms])
  fix f :: "string \<Rightarrow> string option" and symbol y
  assume IH: "\<And>x z. f x = Some z \<Longrightarrow> \<not> (startsKeyword x \<and> sliceFrom x (indexOf x '' '' + 1) = x)"
    and body: "(if startsKeyword symbol
      then f (sliceFrom symbol (indexOf symbol '' '' + 1))
      else Some symbol) = Some y"
  show "\<not> (startsKeyword symbol \<and> sliceFrom symbol (indexOf symbol '' '' + 1) = symbol)"
  proof
    assume stuck: "startsKeyword symbol \<and> sliceFrom symbol (indexOf symbol '' '' + 1) = symbol"
    with body have "f symbol = Some y" by simp
    from IH[OF this] stuck show False by simp
  qed
qed

text \<open>
  C10. The claim is that the keyword-stripping loop ends on every input, also on a
  string that begins with a listed keyword and holds no space. On \<open>void*\<close> the loop
  condition holds, \<open>indexOf\<close> gives \<open>-1\<close>, \<open>slice(0)\<close> gives the same string back, and
  the loop never exits: \<open>processSymbol\<close> does not return.
\<close>

theorem processSymbol_void_star_diverges:
  "processSymbol ''void*'' = None"
proof -
  have "startsKeyword ''void*'' \<and> sliceFrom ''void*'' (indexOf ''void*'' '' '' + 1) = ''void*''"
    by (simp add: startsKeyword_def startsWith_def sliceFrom_def)
  then have "stripKeywords ''void*'' = None"
    using stripKeywords_stuck[of "''void*''"] by (cases "stripKeywords ''void*''") auto
  then show ?thesis by (simp add: processSymbol_def)
qed

lemma startsWith_append [simp]: "startsWith (p @ s) p"
  by (simp add: startsWith_def)

lemma indexOf_no_space:
  "CHR '' '' \<notin> set kw \<Longrightarrow> indexOf (kw @ CHR '' '' # rest) '' '' = int (length kw)"
  by (induction kw) (auto simp: startsWith_def Let_def)

lemma trim_Nil [simp]: "trim [] = []"
  by (simp add: trim_def)

lemma cleanName_trim: "cleanName = trim"
  by (rule ext) (simp add: cleanName_def)

lemma stripKeywords_token:
  assumes "kw \<in> set keywordTokens"
  shows "stripKeywords (kw @ '' '' @ rest) = stripKeywords rest"
proof -
  have nospace: "CHR '' '' \<notin> set kw"
    using assms by (auto simp: keywordTokens_def)
  have start: "startsKeyword (kw @ '' '' @ rest)"
    using assms by (auto simp: keywordTokens_def startsKeyword_def startsWith_def)
  have "sliceFrom (kw @ CHR '' '' # rest) (indexOf (kw @ CHR '' '' # rest) '' '' + 1) = rest"
    by (simp add: indexOf_no_space[OF nospace] sliceFrom_def nat_add_distrib)
  with start show ?thesis
    by (subst stripKeywords.simps) simp
qed

lemma stripKeywords_done: "\<not> startsKeyword s \<Longrightarrow> stripKeywords s = Some s"
  by (subst stripKeywords.simps) simp

lemmas segment_eval = processSymbol_def stripKeywords.simps startsKeyword_def startsWith_def
  sliceFrom_def splitParts_def splitStr_def cleanName_def trim_def isWhiteSpace_def

text \<open>
  C4, as stated, fails in its third example: on \<open>const char* foo.bar\<close> the loop strips
  \<open>const \<close>, then finds the rest beginning with \<open>char*\<close> and strips through the next
  space as well, so the dot-split sees \<open>foo.bar\<close> and the result is not
  \<open>["char* foo", "bar"]\<close>.
\<close>

theorem processSymbol_const_char_counterexample:
  "processSymbol ''const char* foo.bar'' \<noteq> Some [''char* foo'', ''bar'']"
  by (simp add: segment_eval)

text \<open>
  C4, amended. Path segmentation: a leading keyword token followed by a space is
  stripped, and the segmenter goes on with the rest; a name on which the loop condition
  does not hold is split by the first strategy that applies, in the order bracket (the
  whole name is one segment), dot, double colon, whole trimmed name, the pieces of a
  split trimmed and the empty ones dropped. \<open>Namespace::Class::method\<close> maps to
  \<open>["Namespace", "Class", "method"]\<close>, \<open>[vtable for X]\<close> to the single segment
  \<open>["[vtable for X]"]\<close>, and \<open>const char* foo.bar\<close> to \<open>["foo", "bar"]\<close>. (What the
  loop does with \<open>void*\<close> or \<open>char*\<close> not followed by a space is the subject of C10.)
\<close>

theorem processSymbol_segmentation:
  "(\<forall>kw \<in> set keywordTokens. \<forall>rest.
      processSymbol (kw @ '' '' @ rest) = processSymbol rest) \<and>
   (\<forall>s. \<not> startsKeyword s \<longrightarrow>
      processSymbol s =
        Some (if startsWith s ''['' then [s]
              else if includesStr s ''.''
                then filter (\<lambda>p. p \<noteq> []) (map trim (splitStr s ''.''))
              else if includesStr s ''::''
                then filter (\<lambda>p. p \<noteq> []) (map trim (splitStr s ''::''))
              else [trim s])) \<and>
   processSymbol ''Namespace::Class::method'' = Some [''Namespace'', ''Class'', ''method''] \<and>
   processSymbol ''[vtable for X]'' = Some [''[vtable for X]''] \<and>
   processSymbol ''const char* foo.bar'' = Some [''foo'', ''bar'']"
proof (intro conjI ballI allI impI)
  fix kw rest assume "kw \<in> set keywordTokens"
  then show "processSymbol (kw @ '' '' @ rest) = processSymbol rest"
    using stripKeywords_token[of kw rest] by (simp add: processSymbol_def)
next
  fix s assume "\<not> startsKeyword s"
  then show "processSymbol s =
        Some (if startsWith s ''['' then [s]
              else if includesStr s ''.''
                then filter (\<lambda>p. p \<noteq> []) (map trim (splitStr s ''.''))
              else if includesStr s ''::''
                then filter (\<lambda>p. p \<noteq> []) (map trim (splitStr s ''::''))
              else [trim s])"
    by (simp add: processSymbol_def stripKeywords_done splitParts_def cleanName_trim)
next
  show "processSymbol ''Namespace::Class::method'' = Some [''Namespace'', ''Class'', ''method'']"
    by (simp add: segment_eval)
next
  show "processSymbol ''[vtable for X]'' = Some [''[vtable for X]'']"
    by (simp add: segment_eval)
next
  show "processSymbol ''const char* foo.bar'' = Some [''foo'', ''bar'']"
    by (simp add: segment_eval)
qed

text \<open>The amended C4 at \<open>volatile a::b\<close>: one keyword stripped, then the double-colon split.\<close>

theorem processSymbol_segmentation_witness:
  "''volatile'' \<in> set keywordTokens \<and> \<not> startsKeyword ''a::b'' \<and>
   processSymbol ''volatile a::b'' = Some [''a'', ''b'']"
proof -
  have kw: "''volatile'' \<in> set keywordTokens"
    by (simp add: keywordTokens_def)
  have nk: "\<not> startsKeyword ''a::b''"
    by (simp add: startsKeyword_def startsWith_def)
  from processSymbol_segmentation kw
  have "processSymbol (''volatile'' @ '' '' @ ''a::b'') = processSymbol ''a::b''"
    by blast
  moreover from processSymbol_segmentation nk
  have "processSymbol ''a::b'' =
        Some (if startsWith ''a::b'' ''['' then [''a::b'']
              else if includesStr ''a::b'' ''.''
                then filter (\<lambda>p. p \<noteq> []) (map trim (splitStr ''a::b'' ''.''))
              else if includesStr ''a::b'' ''::''
                then filter (\<lambda>p. p \<noteq> []) (map trim (splitStr ''a::b'' ''::''))
              else [trim ''a::b''])"
    by blast
  ultimately have "processSymbol ''volatile a::b'' = Some [''a'', ''b'']"
    by (simp add: startsWith_def splitStr_def trim_def isWhiteSpace_def)
  with kw nk show ?thesis by simp
qed

section \<open>Properties of the classifier\<close>

lemmas classify_eval = categorizeSymbol_def sysvSymbol_def rustSymbol_def cppSymbol_def
  zigSymbol_def matchBracketed_def matchUnderscoreCapital_def matchTypeName_def
  startsWith_def endsWith_def isLineTerminator_def isLowerHex_def isUpperAZ_def
  isLowerAlnum_def

lemma includesStr_nonempty: "includesStr s p \<Longrightarrow> p \<noteq> [] \<Longrightarrow> s \<noteq> []"
  by (cases s) auto

lemma matchHash_append:
  "length h = 16 \<Longrightarrow> list_all isLowerHex h \<Longrightarrow> matchHash (p @ CHR ''h'' # h)"
  by (induction p) auto

lemma hashSuffix_matchHash:
  assumes "hashSuffix s"
  shows "matchHash s"
proof -
  obtain c h where d: "drop (length s - 17) s = c # h"
    and c: "c = CHR ''h''" and h: "length h = 16" "list_all isLowerHex h"
    using assms by (auto simp: hashSuffix_def split: list.splits)
  have "s = take (length s - 17) s @ CHR ''h'' # h"
    using d c by (metis append_take_drop_id)
  then show ?thesis
    using matchHash_append[OF h, of "take (length s - 17) s"] by simp
qed

lemma hashSuffix_nonempty: "hashSuffix s \<Longrightarrow> s \<noteq> []"
  by (auto simp: hashSuffix_def)

lemma bracketOnly_matchBracketed:
  assumes "bracketOnly s"
  shows "matchBracketed s"
proof -
  obtain cs where s: "s = CHR ''['' # cs" and ne: "cs \<noteq> []"
    and l: "last cs = CHR '']''" and nl: "list_all (\<lambda>x. \<not> isLineTerminator x) cs"
    using assms by (auto simp: bracketOnly_def split: list.splits)
  from nl have tw: "takeWhile (\<lambda>x. \<not> isLineTerminator x) cs = cs"
    by (simp add: list_all_iff)
  from ne l have "CHR '']'' \<in> set cs"
    by (metis last_in_set)
  then show ?thesis
    unfolding matchBracketed_def s by (simp add: tw)
qed

text \<open>
  C5, as stated, fails in its first example: \<open>ns::my_func\<close> holds \<open>::\<close>, no hash and no
  double underscore, and is classified Rust, not C++, because the Rust group tests
  \<open>/::[a-z0-9]{2}_/\<close>, which \<open>::my_\<close> matches, before the C++ group is reached.
\<close>

theorem categorizeSymbol_colon_counterexample:
  "includesStr ''ns::my_func'' ''::'' \<and> \<not> matchHash ''ns::my_func'' \<and>
   \<not> includesStr ''ns::my_func'' ''__'' \<and>
   categorizeSymbol (JStr ''ns::my_func'') = Rust"
  by (simp add: classify_eval)

text \<open>
  C5, amended. Classification: \<open>categorizeSymbol\<close> is a function of its argument alone;
  a value that is not a string yields Other; on a non-empty string the groups SysV,
  Rust, C++, Zig are tested in that order, the first that holds decides, and Other is
  the result when none holds. In particular a name that holds \<open>::\<close> and on which no SysV
  and no Rust test holds yields C++; a name that ends in \<open>h\<close> and 16 lower-case
  hexadecimal digits and on which no SysV test holds yields Rust; a one-line name in
  brackets yields SysV; \<open>foo.bar\<close> yields Zig; \<open>undefined\<close> yields Other.
\<close>

theorem categorizeSymbol_ladder:
  "(\<forall>v. \<not> isString v \<longrightarrow> categorizeSymbol v = Other) \<and>
   (\<forall>s. s \<noteq> [] \<and> sysvSymbol s \<longrightarrow> categorizeSymbol (JStr s) = SysV) \<and>
   (\<forall>s. s \<noteq> [] \<and> \<not> sysvSymbol s \<and> rustSymbol s \<longrightarrow> categorizeSymbol (JStr s) = Rust) \<and>
   (\<forall>s. s \<noteq> [] \<and> \<not> sysvSymbol s \<and> \<not> rustSymbol s \<and> cppSymbol s \<longrightarrow>
      categorizeSymbol (JStr s) = CPP) \<and>
   (\<forall>s. s \<noteq> [] \<and> \<not> sysvSymbol s \<and> \<not> rustSymbol s \<and> \<not> cppSymbol s \<and> zigSymbol s \<longrightarrow>
      categorizeSymbol (JStr s) = Zig) \<and>
   (\<forall>s. \<not> sysvSymbol s \<and> \<not> rustSymbol s \<and> \<not> cppSymbol s \<and> \<not> zigSymbol s \<longrightarrow>
      categorizeSymbol (JStr s) = Other) \<and>
   (\<forall>s. includesStr s ''::'' \<and> \<not> sysvSymbol s \<and> \<not> rustSymbol s \<longrightarrow>
      categorizeSymbol (JStr s) = CPP) \<and>
   (\<forall>s. hashSuffix s \<and> \<not> sysvSymbol s \<longrightarrow> categorizeSymbol (JStr s) = Rust) \<and>
   (\<forall>s. bracketOnly s \<longrightarrow> categorizeSymbol (JStr s) = SysV) \<and>
   categorizeSymbol (JStr ''foo.bar'') = Zig \<and>
   categorizeSymbol JUndefined = Other"
proof (intro conjI allI impI)
  fix v assume "\<not> isString v"
  then show "categorizeSymbol v = Other"
    by (cases v) (simp_all add: categorizeSymbol_def isString_def)
next
  fix s assume "includesStr s ''::'' \<and> \<not> sysvSymbol s \<and> \<not> rustSymbol s"
  then show "categorizeSymbol (JStr s) = CPP"
    using includesStr_nonempty[of s "''::''"] by (simp add: categorizeSymbol_def cppSymbol_def)
next
  fix s assume h: "hashSuffix s \<and> \<not> sysvSymbol s"
  then have "rustSymbol s"
    by (simp add: rustSymbol_def hashSuffix_matchHash)
  with h show "categorizeSymbol (JStr s) = Rust"
    by (simp add: categorizeSymbol_def hashSuffix_nonempty)
next
  fix s assume b: "bracketOnly s"
  then have "sysvSymbol s"
    by (simp add: sysvSymbol_def bracketOnly_matchBracketed)
  moreover from b have "s \<noteq> []"
    by (auto simp: bracketOnly_def)
  ultimately show "categorizeSymbol (JStr s) = SysV"
    by (simp add: categorizeSymbol_def)
next
  show "categorizeSymbol (JStr ''foo.bar'') = Zig"
    by (simp add: classify_eval)
qed (simp_all add: categorizeSymbol_def)

text \<open>
  The amended C5 at \<open>Foo::bar\<close>, at \<open>core::fmt::h0123456789abcdef\<close>, at
  \<open>[anon_symbol]\<close> and at the number 7.
\<close>

theorem categorizeSymbol_ladder_witness:
  "categorizeSymbol (JStr ''Foo::bar'') = CPP \<and>
   categorizeSymbol (JStr ''core::fmt::h0123456789abcdef'') = Rust \<and>
   categorizeSymbol (JStr ''[anon_symbol]'') = SysV \<and>
   categorizeSymbol (JNum 7) = Other"
proof -
  have a: "includesStr ''Foo::bar'' ''::'' \<and> \<not> sysvSymbol ''Foo::bar'' \<and> \<not> rustSymbol ''Foo::bar''"
    by (simp add: classify_eval)
  have b: "hashSuffix ''core::fmt::h0123456789abcdef'' \<and>
           \<not> sysvSymbol ''core::fmt::h0123456789abcdef''"
    by (simp add: hashSuffix_def classify_eval)
  have c: "bracketOnly ''[anon_symbol]''"
    by (simp add: bracketOnly_def isLineTerminator_def)
  have d: "\<not> isString (JNum 7)"
    by (simp add: isString_def)
  from categorizeSymbol_ladder a b c d show ?thesis
    by blast
qed

section \<open>Properties of the filter predicate\<close>

text \<open>
  C6. Filter composition: \<open>matchesFilters\<close> is the conjunction of its three conditions,
  on the size, on the category and on the search term. Hence a node whose size is below
  \<open>minSize\<close> is rejected whatever the category filters and the search term are; with no
  active category the result is that of the size and search conditions alone; with an
  empty search term it is that of the size and category conditions alone.
\<close>

theorem matchesFilters_conjunction:
  "matchesFilters minSize activeFilters searchTerm node =
     (minSize \<le> node_size node \<and>
      (activeFilters = {} \<or>
       categorizeSymbol (optStr (node_originalSymbol node)) \<in> activeFilters) \<and>
      (searchTerm = [] \<or>
       includesStr (toLowerCase (searchText node)) (toLowerCase searchTerm))) \<and>
   (node_size node < minSize \<longrightarrow> \<not> matchesFilters minSize activeFilters searchTerm node) \<and>
   matchesFilters minSize {} searchTerm node =
     (minSize \<le> node_size node \<and>
      (searchTerm = [] \<or>
       includesStr (toLowerCase (searchText node)) (toLowerCase searchTerm))) \<and>
   matchesFilters minSize activeFilters [] node =
     (minSize \<le> node_size node \<and>
      (activeFilters = {} \<or>
       categorizeSymbol (optStr (node_originalSymbol node)) \<in> activeFilters))"
  by (auto simp: matchesFilters_def Let_def)

text \<open>
  C6 at a node of size 5 named \<open>a\<close>: rejected below the minimum size 10 even with no
  filter set, accepted at the minimum size 5 with no filter set.
\<close>

theorem matchesFilters_conjunction_witness:
  "node_size (TreeNode ''a'' 5 [] None None None) < 10 \<and>
   \<not> matchesFilters 10 {} [] (TreeNode ''a'' 5 [] None None None) \<and>
   matchesFilters 5 {} [] (TreeNode ''a'' 5 [] None None None)"
  using matchesFilters_conjunction [of 10 "{}" "[]" "TreeNode ''a'' 5 [] None None None"]
    matchesFilters_conjunction [of 5 "{}" "[]" "TreeNode ''a'' 5 [] None None None"]
  by simp




section \<open>Properties of the normalizer\<close>

lemma codeUnitCompare_sign: "codeUnitCompare x y < 0 \<longleftrightarrow> 0 < codeUnitCompare y x"
  by (induction x y rule: codeUnitCompare.induct) auto

lemma codeUnitCompare_trans:
  "codeUnitCompare x y \<le> 0 \<Longrightarrow> codeUnitCompare y z \<le> 0 \<Longrightarrow> codeUnitCompare x z \<le> 0"
proof (induction x y arbitrary: z rule: codeUnitCompare.induct)
  case 1
  then show ?case by simp
next
  case (2 y ys)
  then show ?case by (cases z) auto
next
  case (3 x xs)
  then show ?case by simp
next
  case (4 x xs y ys)
  then show ?case by (cases z) (auto split: if_splits)
qed

lemma consistent_codeUnitCompare: "consistentCompare codeUnitCompare"
  unfolding consistentCompare_def
  using codeUnitCompare_sign codeUnitCompare_trans by blast

lemma keepRow_iff:
  "keepRow row \<longleftrightarrow>
     (\<exists>s. raw_symbols row = JStr s \<and> s \<noteq> []) \<and>
     (\<not> truthy (raw_vmsize row) \<or> isNumber (raw_vmsize row))"
  by (cases "raw_symbols row") (auto simp: keepRow_def truthy_def isString_def)

lemma mset_insertSorted: "mset (insertSorted cmp x ys) = add_mset x (mset ys)"
  by (induction ys) auto

lemma mset_sortBy: "mset (sortBy cmp xs) = mset xs"
  by (induction xs) (auto simp: sortBy_def mset_insertSorted)

lemma set_insertSorted: "set (insertSorted cmp x ys) = insert x (set ys)"
  by (induction ys) auto

lemma compareRows_numbers:
  assumes "isNumber (raw_vmsize a)" "isNumber (raw_vmsize b)"
  shows "compareRows lc a b \<le> 0 \<longleftrightarrow> rowOrder lc a b"
  using assms
  by (cases "raw_vmsize a"; cases "raw_vmsize b")
     (auto simp: compareRows_def rowOrder_def isNumber_def numOf_def toNumber_def)

lemma rowOrder_total:
  assumes "consistentCompare lc" "\<not> rowOrder lc a b"
  shows "rowOrder lc b a"
proof -
  from assms(1) have "\<And>x y. 0 < lc x y \<Longrightarrow> lc y x \<le> 0"
    unfolding consistentCompare_def by (metis less_le_not_le)
  with assms(2) show ?thesis
    unfolding rowOrder_def by (metis not_less_iff_gr_or_eq not_le)
qed

lemma rowOrder_trans:
  assumes "consistentCompare lc" "rowOrder lc a b" "rowOrder lc b c"
  shows "rowOrder lc a c"
proof -
  from assms(1) have t: "\<And>x y z. lc x y \<le> 0 \<Longrightarrow> lc y z \<le> 0 \<Longrightarrow> lc x z \<le> 0"
    unfolding consistentCompare_def by blast
  from assms(2,3) show ?thesis
    unfolding rowOrder_def using t by (smt (verit))
qed

lemma sorted_insertSorted:
  assumes lc: "consistentCompare lc"
    and x: "isNumber (raw_vmsize x)"
    and ys: "\<forall>y \<in> set ys. isNumber (raw_vmsize y)"
    and s: "sorted_wrt (rowOrder lc) ys"
  shows "sorted_wrt (rowOrder lc) (insertSorted (compareRows lc) x ys)"
  using ys s
proof (induction ys)
  case Nil
  then show ?case by simp
next
  case (Cons y ys)
  show ?case
  proof (cases "compareRows lc x y \<le> 0")
    case True
    then have xy: "rowOrder lc x y"
      using compareRows_numbers x Cons.prems(1) by simp
    have "\<forall>z \<in> set ys. rowOrder lc x z"
      using Cons.prems(2) xy rowOrder_trans[OF lc] by auto
    with True xy Cons.prems(2) show ?thesis by simp
  next
    case False
    then have "\<not> rowOrder lc x y"
      using compareRows_numbers x Cons.prems(1) by simp
    then have yx: "rowOrder lc y x"
      by (rule rowOrder_total[OF lc])
    have "sorted_wrt (rowOrder lc) (insertSorted (compareRows lc) x ys)"
      using Cons by simp
    with False yx Cons.prems(2) show ?thesis
      by (auto simp: set_insertSorted)
  qed
qed

lemma sorted_sortBy:
  assumes "consistentCompare lc" "\<forall>y \<in> set ys. isNumber (raw_vmsize y)"
  shows "sorted_wrt (rowOrder lc) (sortBy (compareRows lc) ys)"
  using assms(2)
proof (induction ys)
  case Nil
  then show ?case by (simp add: sortBy_def)
next
  case (Cons y ys)
  have "set (sortBy (compareRows lc) ys) = set ys"
    using mset_sortBy[of "compareRows lc" ys] by (metis set_mset_mset)
  with Cons show ?case
    using sorted_insertSorted[OF assms(1), of y "sortBy (compareRows lc) ys"]
    by (simp add: sortBy_def)
qed

text \<open>
  C8, as stated for every row sequence, fails where a kept row has no numeric size: the
  row \<open>x\<close> without a \<open>vmsize\<close> and the row \<open>y\<close> of size 5 are both kept, the comparator
  gives \<open>NaN\<close> for them, which \<open>sort\<close> reads as equal, and \<open>x\<close> stays before \<open>y\<close>.
  Also, a row whose \<open>symbols\<close> is the empty string is dropped, though the field is
  textual and the size numeric.
\<close>

theorem normalizeRows_unsized_counterexample:
  "isString (raw_symbols (csvRow [] 5 0)) \<and> isNumber (raw_vmsize (csvRow [] 5 0)) \<and>
   \<not> keepRow (csvRow [] 5 0) \<and>
   keepRow \<lparr> raw_symbols = JStr ''x'', raw_vmsize = JUndefined, raw_instantiations = JNum 0 \<rparr> \<and>
   keepRow (csvRow ''y'' 5 0) \<and>
   normalizeRows codeUnitCompare
     [\<lparr> raw_symbols = JStr ''x'', raw_vmsize = JUndefined, raw_instantiations = JNum 0 \<rparr>,
      csvRow ''y'' 5 0] =
     [\<lparr> raw_symbols = JStr ''x'', raw_vmsize = JUndefined, raw_instantiations = JNum 0 \<rparr>,
      csvRow ''y'' 5 0] \<and>
   \<not> sorted_wrt (rowOrder codeUnitCompare)
     (normalizeRows codeUnitCompare
       [\<lparr> raw_symbols = JStr ''x'', raw_vmsize = JUndefined, raw_instantiations = JNum 0 \<rparr>,
        csvRow ''y'' 5 0])"
  by (simp add: normalizeRows_def sortBy_def keepRow_def truthy_def isString_def isNumber_def
      csvRow_def compareRows_def toNumber_def rowOrder_def numOf_def)

text \<open>
  C8, amended. Row normalization: for every raw row sequence the normalizer keeps
  exactly the rows whose \<open>symbols\<close> is a non-empty string and whose \<open>vmsize\<close> is falsy
  or a number; when every kept row has a numeric \<open>vmsize\<close>, the output is sorted
  descending by size with ties broken by the ascending order of \<open>localeCompare\<close> on the
  names, for a \<open>localeCompare\<close> that is a consistent comparator; the rows
  \<open>{"b",100,0}\<close> and \<open>{"a",100,0}\<close> normalize in the order \<open>a\<close>, \<open>b\<close> when
  \<open>localeCompare\<close> puts \<open>a\<close> before \<open>b\<close>.
\<close>

theorem normalizeRows_sorted:
  assumes "consistentCompare lc"
  shows "mset (normalizeRows lc rows) = mset (filter keepRow rows) \<and>
    (\<forall>row. keepRow row \<longleftrightarrow>
       (\<exists>s. raw_symbols row = JStr s \<and> s \<noteq> []) \<and>
       (\<not> truthy (raw_vmsize row) \<or> isNumber (raw_vmsize row))) \<and>
    ((\<forall>row \<in> set rows. keepRow row \<longrightarrow> isNumber (raw_vmsize row)) \<longrightarrow>
       sorted_wrt (rowOrder lc) (normalizeRows lc rows)) \<and>
    (lc ''a'' ''b'' < 0 \<longrightarrow>
       normalizeRows lc [csvRow ''b'' 100 0, csvRow ''a'' 100 0] =
         [csvRow ''a'' 100 0, csvRow ''b'' 100 0])"
proof (intro conjI allI impI)
  show "mset (normalizeRows lc rows) = mset (filter keepRow rows)"
    by (simp add: normalizeRows_def mset_sortBy)
next
  fix row
  show "keepRow row \<longleftrightarrow>
       (\<exists>s. raw_symbols row = JStr s \<and> s \<noteq> []) \<and>
       (\<not> truthy (raw_vmsize row) \<or> isNumber (raw_vmsize row))"
    by (rule keepRow_iff)
next
  assume "\<forall>row \<in> set rows. keepRow row \<longrightarrow> isNumber (raw_vmsize row)"
  then have "\<forall>y \<in> set (filter keepRow rows). isNumber (raw_vmsize y)"
    by simp
  then show "sorted_wrt (rowOrder lc) (normalizeRows lc rows)"
    unfolding normalizeRows_def by (rule sorted_sortBy[OF assms])
next
  assume "lc ''a'' ''b'' < 0"
  with assms have "0 < lc ''b'' ''a''"
    unfolding consistentCompare_def by blast
  then show "normalizeRows lc [csvRow ''b'' 100 0, csvRow ''a'' 100 0] =
         [csvRow ''a'' 100 0, csvRow ''b'' 100 0]"
    by (simp add: normalizeRows_def sortBy_def keepRow_def truthy_def isString_def
        isNumber_def csvRow_def compareRows_def strOf_def)
qed

text \<open>
  The amended C8 with the comparison by code units: three rows and one that is dropped
  for its size \<open>"n/a"\<close>.
\<close>

theorem normalizeRows_sorted_witness:
  "codeUnitCompare ''a'' ''b'' < 0 \<and>
   normalizeRows codeUnitCompare
     [csvRow ''b'' 100 0, csvRow ''c'' 200 0,
      \<lparr> raw_symbols = JStr ''d'', raw_vmsize = JStr ''n/a'', raw_instantiations = JNull \<rparr>,
      csvRow ''a'' 100 0] =
     [csvRow ''c'' 200 0, csvRow ''a'' 100 0, csvRow ''b'' 100 0] \<and>
   sorted_wrt (rowOrder codeUnitCompare) [csvRow ''c'' 200 0, csvRow ''a'' 100 0, csvRow ''b'' 100 0] \<and>
   normalizeRows codeUnitCompare [csvRow ''b'' 100 0, csvRow ''a'' 100 0] =
     [csvRow ''a'' 100 0, csvRow ''b'' 100 0]"
proof -
  let ?rows = "[csvRow ''b'' 100 0, csvRow ''c'' 200 0,
      \<lparr> raw_symbols = JStr ''d'', raw_vmsize = JStr ''n/a'', raw_instantiations = JNull \<rparr>,
      csvRow ''a'' 100 0]"
  have num: "\<forall>row \<in> set ?rows. keepRow row \<longrightarrow> isNumber (raw_vmsize row)"
    by (simp add: keepRow_def truthy_def isString_def isNumber_def csvRow_def)
  have ab: "codeUnitCompare ''a'' ''b'' < 0"
    by simp
  have ev: "normalizeRows codeUnitCompare ?rows =
     [csvRow ''c'' 200 0, csvRow ''a'' 100 0, csvRow ''b'' 100 0]"
    by (simp add: normalizeRows_def sortBy_def keepRow_def truthy_def isString_def
        isNumber_def csvRow_def compareRows_def strOf_def toNumber_def)
  from normalizeRows_sorted[OF consistent_codeUnitCompare, of ?rows] num ab ev
  show ?thesis
    by simp
qed

section \<open>Properties of the collapser\<close>

lemma map_of_mapSet: "map_of (mapSet m k v) = (map_of m)(k \<mapsto> v)"
  by (induction m k v rule: mapSet.induct) (auto simp: fun_eq_iff)

lemma keys_mapSet: "fst ` set (mapSet m k v) = insert k (fst ` set m)"
  by (induction m k v rule: mapSet.induct) auto

lemma distinct_mapSet: "distinct (map fst m) \<Longrightarrow> distinct (map fst (mapSet m k v))"
  by (induction m k v rule: mapSet.induct) (auto simp: keys_mapSet)

lemma set_mapSet: "set (mapSet m k v) \<subseteq> insert (k, v) (set m)"
  by (induction m k v rule: mapSet.induct) auto

lemma filter_by_key:
  assumes "distinct (map fst m)" "\<forall>(k, v) \<in> set m. f v = k" "map_of m c = Some v"
  shows "filter (\<lambda>r. f r = c) (map snd m) = [v]"
  using assms
proof (induction m)
  case Nil
  then show ?case by simp
next
  case (Cons p m)
  obtain k w where p: "p = (k, w)" by (cases p)
  show ?case
  proof (cases "k = c")
    case True
    with Cons.prems p have w: "w = v" "f w = c" by auto
    have "\<forall>r \<in> set (map snd m). f r \<noteq> c"
    proof
      fix r assume "r \<in> set (map snd m)"
      then obtain k' where in_m: "(k', r) \<in> set m" by auto
      with Cons.prems(2) have "f r = k'" by auto
      moreover from in_m have "k' \<in> set (map fst m)" by force
      ultimately show "f r \<noteq> c" using Cons.prems(1) p True by auto
    qed
    then have "filter (\<lambda>r. f r = c) (map snd m) = []"
      by (simp add: filter_empty_conv)
    with w p show ?thesis by simp
  next
    case False
    with Cons.prems p have "f w \<noteq> c" "map_of m c = Some v" by auto
    with Cons p show ?thesis by auto
  qed
qed

lemma groupRows_snoc:
  "groupRows c (rows @ [x]) =
     (if canonicalName (symbols x) = c then groupRows c rows @ [x] else groupRows c rows)"
  by (simp add: groupRows_def)

lemma groupRows_empty:
  "c \<notin> (\<lambda>r. canonicalName (symbols r)) ` set rows \<Longrightarrow> groupRows c rows = []"
  by (auto simp: groupRows_def filter_empty_conv)

lemma dedupInv_step:
  assumes inv: "dedupInv rows m"
    and q: "canonicalName (symbols x) = ''_'' \<longrightarrow> symbols x = ''_''"
  shows "dedupInv (rows @ [x]) (dedupStep x m)"
proof -
  let ?n = "canonicalName (symbols x)"
  let ?C = "(\<lambda>r. canonicalName (symbols r)) ` set rows"
  from inv have d: "distinct (map fst m)"
    and sy: "\<forall>(k, v) \<in> set m. symbols v = k"
    and mo: "\<And>c. map_of m c = (if c \<in> ?C then Some (groupRecord c rows) else None)"
    unfolding dedupInv_def by auto
  have other: "\<And>c. c \<noteq> ?n \<Longrightarrow> groupRecord c (rows @ [x]) = groupRecord c rows"
    by (simp add: groupRecord_def groupRows_snoc)
  show ?thesis
  proof (cases "?n \<in> ?C")
    case True
    let ?e = "groupRecord ?n rows"
    let ?v = "?e\<lparr> vmsize := vmsize ?e + vmsize x,
                   instantiations := instantiations ?e + (instantiations x + 1) \<rparr>"
    from True mo have look: "map_of m ?n = Some ?e" by simp
    then have step: "dedupStep x m = mapSet m ?n ?v"
      by (simp add: dedupStep_def Let_def)
    have v: "?v = groupRecord ?n (rows @ [x])"
      by (simp add: groupRecord_def groupRows_snoc)
    have "distinct (map fst (mapSet m ?n ?v))"
      using d by (rule distinct_mapSet)
    moreover have "\<forall>(k, w) \<in> set (mapSet m ?n ?v). symbols w = k"
      using sy set_mapSet[of m ?n ?v] by (auto simp: groupRecord_def)
    moreover have "\<And>c. map_of (mapSet m ?n ?v) c =
         (if c \<in> (\<lambda>r. canonicalName (symbols r)) ` set (rows @ [x])
          then Some (groupRecord c (rows @ [x])) else None)"
      using mo v other by (auto simp: map_of_mapSet)
    ultimately show ?thesis
      unfolding dedupInv_def step by blast
  next
    case False
    let ?v = "x\<lparr> symbols := ?n \<rparr>"
    from False mo have look: "map_of m ?n = None" by simp
    with q have step: "dedupStep x m = mapSet m ?n ?v"
      by (auto simp: dedupStep_def Let_def)
    have v: "?v = groupRecord ?n (rows @ [x])"
      using False by (simp add: groupRecord_def groupRows_snoc groupRows_empty)
    have "distinct (map fst (mapSet m ?n ?v))"
      using d by (rule distinct_mapSet)
    moreover have "\<forall>(k, w) \<in> set (mapSet m ?n ?v). symbols w = k"
      using sy set_mapSet[of m ?n ?v] by auto
    moreover have "\<And>c. map_of (mapSet m ?n ?v) c =
         (if c \<in> (\<lambda>r. canonicalName (symbols r)) ` set (rows @ [x])
          then Some (groupRecord c (rows @ [x])) else None)"
      using mo v other by (auto simp: map_of_mapSet)
    ultimately show ?thesis
      unfolding dedupInv_def step by blast
  qed
qed

lemma dedupInv_fold:
  assumes "\<forall>r \<in> set rows. canonicalName (symbols r) = ''_'' \<longrightarrow> symbols r = ''_''"
  shows "dedupInv rows (fold dedupStep rows [])"
  using assms
proof (induction rows rule: rev_induct)
  case Nil
  then show ?case by (simp add: dedupInv_def)
next
  case (snoc x rows)
  then show ?case by (simp add: dedupInv_step)
qed

lemmas canonical_eval = canonicalName_def matchNumbered_def matchAnonStruct_def atEnd_def
  startsWith_def isDigit_def isLineTerminator_def

text \<open>
  C3, as stated, fails in its example: of the two rows \<open>foo__anon_2\<close> (size 20) and
  \<open>foo__anon_1\<close> (size 10), in the order the normalizer gives them, the first becomes
  the record with count 0 and the second adds 1 to it; the record is
  \<open>{"foo", 30, 1}\<close>, not \<open>{"foo", 30, 2}\<close>. The other order gives the same record.
\<close>

theorem dedupSymbols_foo_counterexample:
  "dedupSymbols
     [\<lparr> symbols = ''foo__anon_2'', vmsize = 20, instantiations = 0 \<rparr>,
      \<lparr> symbols = ''foo__anon_1'', vmsize = 10, instantiations = 0 \<rparr>] =
     [\<lparr> symbols = ''foo'', vmsize = 30, instantiations = 1 \<rparr>] \<and>
   dedupSymbols
     [\<lparr> symbols = ''foo__anon_1'', vmsize = 10, instantiations = 0 \<rparr>,
      \<lparr> symbols = ''foo__anon_2'', vmsize = 20, instantiations = 0 \<rparr>] =
     [\<lparr> symbols = ''foo'', vmsize = 30, instantiations = 1 \<rparr>]"
  by (simp add: dedupSymbols_def dedupStep_def Let_def canonical_eval)

text \<open>
  C3, amended. Instantiation collapsing: for every list of rows in which no name other
  than \<open>_\<close> itself strips to \<open>_\<close>, and every canonical name \<open>c\<close> that a row of the list
  strips to, the collapser produces exactly one record named \<open>c\<close>; its size is the sum of
  the sizes of the rows that strip to \<open>c\<close>, and its count is the sum of their counts
  plus one for every such row after the first. The records of the output carry exactly
  the canonical names of the rows. The rows \<open>{"foo__anon_1", 10, 0}\<close> and
  \<open>{"foo__anon_2", 20, 0}\<close> collapse to the single record \<open>{"foo", 30, 1}\<close>.
\<close>

theorem dedupSymbols_groups:
  assumes "\<forall>r \<in> set rows. canonicalName (symbols r) = ''_'' \<longrightarrow> symbols r = ''_''"
  shows "(\<forall>c \<in> (\<lambda>r. canonicalName (symbols r)) ` set rows.
            filter (\<lambda>r. symbols r = c) (dedupSymbols rows) = [groupRecord c rows]) \<and>
         set (map symbols (dedupSymbols rows)) = (\<lambda>r. canonicalName (symbols r)) ` set rows \<and>
         dedupSymbols
           [\<lparr> symbols = ''foo__anon_2'', vmsize = 20, instantiations = 0 \<rparr>,
            \<lparr> symbols = ''foo__anon_1'', vmsize = 10, instantiations = 0 \<rparr>] =
           [\<lparr> symbols = ''foo'', vmsize = 30, instantiations = 1 \<rparr>]"
proof (intro conjI ballI)
  let ?m = "fold dedupStep rows []"
  let ?C = "(\<lambda>r. canonicalName (symbols r)) ` set rows"
  from dedupInv_fold[OF assms] have d: "distinct (map fst ?m)"
    and sy: "\<forall>(k, v) \<in> set ?m. symbols v = k"
    and mo: "\<And>c. map_of ?m c = (if c \<in> ?C then Some (groupRecord c rows) else None)"
    unfolding dedupInv_def by auto
  {
    fix c assume "c \<in> ?C"
    with mo have "map_of ?m c = Some (groupRecord c rows)" by simp
    from filter_by_key[OF d sy this]
    show "filter (\<lambda>r. symbols r = c) (dedupSymbols rows) = [groupRecord c rows]"
      by (simp add: dedupSymbols_def)
  }
  have "set (map symbols (dedupSymbols rows)) = set (map fst ?m)"
    using sy by (force simp: dedupSymbols_def)
  also have "\<dots> = dom (map_of ?m)"
    by (simp add: dom_map_of_conv_image_fst)
  also have "\<dots> = ?C"
    using mo by (auto simp: dom_def)
  finally show "set (map symbols (dedupSymbols rows)) = ?C" .
  show "dedupSymbols
           [\<lparr> symbols = ''foo__anon_2'', vmsize = 20, instantiations = 0 \<rparr>,
            \<lparr> symbols = ''foo__anon_1'', vmsize = 10, instantiations = 0 \<rparr>] =
           [\<lparr> symbols = ''foo'', vmsize = 30, instantiations = 1 \<rparr>]"
    by (simp add: dedupSymbols_def dedupStep_def Let_def canonical_eval)
qed

text \<open>
  The amended C3 at three rows, two of which strip to \<open>bar\<close>: the record \<open>bar\<close> has
  the size 12 and the count 3 + 0 + 1.
\<close>

theorem dedupSymbols_groups_witness:
  "filter (\<lambda>r. symbols r = ''bar'')
     (dedupSymbols
       [\<lparr> symbols = ''bar__struct_7'', vmsize = 8, instantiations = 3 \<rparr>,
        \<lparr> symbols = ''baz'', vmsize = 5, instantiations = 0 \<rparr>,
        \<lparr> symbols = ''bar__anon_1'', vmsize = 4, instantiations = 0 \<rparr>]) =
     [\<lparr> symbols = ''bar'', vmsize = 12, instantiations = 4 \<rparr>]"
proof -
  let ?rows = "[\<lparr> symbols = ''bar__struct_7'', vmsize = 8, instantiations = 3 \<rparr>,
        \<lparr> symbols = ''baz'', vmsize = 5, instantiations = 0 \<rparr>,
        \<lparr> symbols = ''bar__anon_1'', vmsize = 4, instantiations = 0 \<rparr>]"
  have q: "\<forall>r \<in> set ?rows. canonicalName (symbols r) = ''_'' \<longrightarrow> symbols r = ''_''"
    by (simp add: canonical_eval)
  have c: "''bar'' \<in> (\<lambda>r. canonicalName (symbols r)) ` set ?rows"
    by (simp add: canonical_eval)
  have g: "groupRecord ''bar'' ?rows = \<lparr> symbols = ''bar'', vmsize = 12, instantiations = 4 \<rparr>"
    by (simp add: groupRecord_def groupRows_def canonical_eval)
  from dedupSymbols_groups[OF q]
  have "\<forall>c \<in> (\<lambda>r. canonicalName (symbols r)) ` set ?rows.
          filter (\<lambda>r. symbols r = c) (dedupSymbols ?rows) = [groupRecord c ?rows]"
    by (rule conjunct1)
  then have "filter (\<lambda>r. symbols r = ''bar'') (dedupSymbols ?rows) = [groupRecord ''bar'' ?rows]"
    using c by (rule bspec)
  then show ?thesis
    by (simp only: g)
qed

section \<open>Properties of the variant merger\<close>


lemma node_name_transformNode [simp]: "node_name (transformNode groups t) = node_name t"
  by (cases t) simp











section \<open>Properties of the tree builder\<close>

lemma builderChildren_iff:
  "builderChildren children \<longleftrightarrow>
     (\<forall>(k, c) \<in> set children. k \<notin> set objectPrototypeKeys \<and> builderTree c)"
  by (induction children) auto

lemma builderTree_children:
  "builderTree t \<Longrightarrow> map_of (node_children t) p = Some c \<Longrightarrow>
     p \<notin> set objectPrototypeKeys \<and> builderTree c"
  by (cases t) (auto simp: builderChildren_iff dest: map_of_SomeD)

lemma builderChildren_mapSet:
  assumes "builderChildren children" "k \<notin> set objectPrototypeKeys" "builderTree v"
  shows "builderChildren (mapSet children k v)"
  using assms set_mapSet[of children k v] unfolding builderChildren_iff by blast

lemma ownTotalList_mapSet:
  "ownTotalList (mapSet children k v) =
     ownTotalList children + ownTotal v -
       (case map_of children k of None \<Rightarrow> 0 | Some old \<Rightarrow> ownTotal old)"
  by (induction children k v rule: mapSet.induct) auto

lemma node_name_insertParts [simp]:
  "node_name (insertParts symbol path parts current) = node_name current"
proof (induction parts arbitrary: path current)
  case Nil
  then show ?case by simp
next
  case (Cons part rest)
  then show ?case
    by (simp add: Let_def lookupChild_def split: option.splits)
qed

lemma node_instantiations_insertParts [simp]:
  "node_instantiations (insertParts symbol path parts current) = node_instantiations current"
proof (induction parts arbitrary: path current)
  case Nil
  then show ?case by simp
next
  case (Cons part rest)
  then show ?case
    by (simp add: Let_def lookupChild_def split: option.splits)
qed

lemma insertParts_empty_part [simp]:
  "insertParts symbol path ([] # rest) current = insertParts symbol path rest current"
  by simp

lemma insertParts_inherited:
  assumes "part \<noteq> []" "map_of (node_children current) part = None"
    "part \<in> set objectPrototypeKeys"
  shows "insertParts symbol path (part # rest) current = current"
  using assms by (simp add: lookupChild_def Let_def)

text \<open>
  The child the walk stands on after a part that is found or created: with the size and
  count of the record added when the part is the last one.
\<close>

lemma insertParts_step:
  assumes "part \<noteq> []"
    and "child = (case map_of (node_children current) part of
                    Some c \<Rightarrow> c
                  | None \<Rightarrow> TreeNode part 0 []
                      (Some (if path \<noteq> [] then path @ ''::'' @ part else part))
                      (Some (symbols symbol)) (Some 0))"
    and "map_of (node_children current) part = None \<longrightarrow> part \<notin> set objectPrototypeKeys"
    and "child' = (if rest = [] then
                     TreeNode (node_name child) (node_size child + vmsize symbol)
                       (node_children child) (node_fullPath child) (node_originalSymbol child)
                       (map_option (\<lambda>c. c + instantiations symbol) (node_instantiations child))
                   else child)"
  shows "insertParts symbol path (part # rest) current =
           TreeNode (node_name current) (node_size current)
             (mapSet (node_children current) part
                (insertParts symbol (if path \<noteq> [] then path @ ''::'' @ part else part) rest child'))
             (node_fullPath current) (node_originalSymbol current) (node_instantiations current)"
  using assms by (auto simp: lookupChild_def Let_def split: option.splits)

lemma insertParts_builder:
  "builderTree current \<Longrightarrow> builderTree (insertParts symbol path parts current)"
proof (induction parts arbitrary: path current)
  case Nil
  then show ?case by simp
next
  case (Cons part rest)
  show ?case
  proof (cases "part = []")
    case True
    with Cons show ?thesis by simp
  next
    case False
    note part = False
    show ?thesis
    proof (cases "map_of (node_children current) part = None \<and> part \<in> set objectPrototypeKeys")
      case True
      then have "insertParts symbol path (part # rest) current = current"
        using insertParts_inherited[OF part, of current symbol path rest] by blast
      then show ?thesis using Cons.prems by simp
    next
      case False
      define path' where "path' = (if path \<noteq> [] then path @ ''::'' @ part else part)"
      define child where "child = (case map_of (node_children current) part of
                    Some c \<Rightarrow> c
                  | None \<Rightarrow> TreeNode part 0 [] (Some path') (Some (symbols symbol)) (Some 0))"
      define child' where "child' = (if rest = [] then
                     TreeNode (node_name child) (node_size child + vmsize symbol)
                       (node_children child) (node_fullPath child) (node_originalSymbol child)
                       (map_option (\<lambda>c. c + instantiations symbol) (node_instantiations child))
                   else child)"
      define r where "r = insertParts symbol path' rest child'"
      have res: "insertParts symbol path (part # rest) current =
           TreeNode (node_name current) (node_size current)
             (mapSet (node_children current) part r)
             (node_fullPath current) (node_originalSymbol current) (node_instantiations current)"
        unfolding r_def path'_def
        by (rule insertParts_step[OF part _ _ child'_def])
           (use False in \<open>unfold child_def path'_def, auto\<close>)
      have key: "part \<notin> set objectPrototypeKeys"
        using False builderTree_children[OF Cons.prems] by (cases "map_of (node_children current) part") auto
      have bchild: "builderTree child"
        using builderTree_children[OF Cons.prems] by (auto simp: child_def split: option.splits)
      have bchild': "builderTree child'"
        using bchild by (cases child) (auto simp: child'_def)
      from Cons.IH[OF bchild', of path']
      have br: "builderTree r"
        by (simp add: r_def)
      show ?thesis
        unfolding res using Cons.prems br key
        by (cases current) (simp add: builderChildren_mapSet)
    qed
  qed
qed

lemma calculateTotalSize_total:
  "node_size (calculateTotalSize t) = ownTotal t"
  and calculateChildren_total:
  "sum_list (map (\<lambda>kc. node_size (snd kc)) (calculateChildren children)) = ownTotalList children"
  by (induction t and children rule: calculateTotalSize_calculateChildren.induct)
     (simp_all add: Let_def)

lemma builderTree_emptyRoot: "builderTree emptyRoot"
  by (simp add: emptyRoot_def)

lemmas build_eval = processFile_def normalizeRows_def sortBy_def keepRow_def truthy_def
  isString_def isNumber_def csvRow_def toCSVRow_def strOf_def numOf_def compareRows_def
  toNumber_def dedupSymbols_def dedupStep_def canonicalName_def matchNumbered_def
  matchAnonStruct_def atEnd_def isDigit_def isLineTerminator_def processSymbol_def
  stripKeywords.simps startsKeyword_def startsWith_def sliceFrom_def splitParts_def
  splitStr_def cleanName_def trim_def isWhiteSpace_def lookupChild_def
  objectPrototypeKeys_def emptyRoot_def Let_def canonicalRecords_def

text \<open>
  C1. Conservation says that the size of every canonical record whose name yields at
  least one path segment is part of the size of the root. For the single row
  \<open>{"constructor", 10, 0}\<close> the canonical record has the size 10 and the one segment
  \<open>constructor\<close>, but \<open>children["constructor"]\<close> of the empty root is the inherited
  \<open>Object.prototype.constructor\<close>: no child is created, the size is added to that
  function object, and the root of the hierarchy has the size 0.
\<close>

theorem processFile_constructor_size_lost:
  "canonicalRecords codeUnitCompare [csvRow ''constructor'' 10 0] =
     [\<lparr> symbols = ''constructor'', vmsize = 10, instantiations = 0 \<rparr>] \<and>
   processSymbol ''constructor'' = Some [''constructor''] \<and>
   processFile codeUnitCompare [csvRow ''constructor'' 10 0] =
     Some (TreeNode ''root'' 0 [] None None (Some 0))"
  by (simp add: build_eval)

section \<open>The hierarchy that the build returns\<close>

lemma map_of_calculateChildren:
  "map_of (calculateChildren children) p = map_option calculateTotalSize (map_of children p)"
  by (induction children) auto

lemma node_children_calculateTotalSize:
  "node_children (calculateTotalSize t) = calculateChildren (node_children t)"
  by (cases t) (simp add: Let_def)

lemma node_instantiations_calculateTotalSize:
  "node_instantiations (calculateTotalSize t) = node_instantiations t"
  by (cases t) (simp add: Let_def)

lemma nodeAt_calculateTotalSize:
  "nodeAt (calculateTotalSize t) ps = map_option calculateTotalSize (nodeAt t ps)"
proof (induction ps arbitrary: t)
  case Nil
  then show ?case by simp
next
  case (Cons p ps)
  then show ?case
    by (simp add: node_children_calculateTotalSize map_of_calculateChildren split: option.splits)
qed

lemma ownFields_insertParts [simp]:
  "ownFields (insertParts symbol path parts current) = ownFields current"
proof (induction parts arbitrary: path current)
  case Nil
  then show ?case by simp
next
  case (Cons part rest)
  then show ?case
    by (simp add: ownFields_def Let_def lookupChild_def split: option.splits)
qed

lemma goodParts_Cons:
  "goodParts (part # rest) \<longleftrightarrow>
     part \<noteq> [] \<and> part \<notin> set objectPrototypeKeys \<and> goodParts rest"
  by (auto simp: goodParts_def)

lemma joinFrom_Cons:
  "joinFrom path (part # ps) = joinFrom (if path \<noteq> [] then path @ ''::'' @ part else part) ps"
  by (simp add: joinFrom_def)

lemma nodeAt_mapSet:
  "nodeAt (TreeNode n s (mapSet ch part r) fp os i) (p # ps) =
     (if p = part then nodeAt r ps else nodeAt (TreeNode n s ch fp os i) (p # ps))"
  by (simp add: map_of_mapSet)

lemma insertParts_good:
  assumes "part \<noteq> []" "part \<notin> set objectPrototypeKeys"
    and "child = (case map_of (node_children current) part of
                    Some c \<Rightarrow> c
                  | None \<Rightarrow> TreeNode part 0 []
                      (Some (if path \<noteq> [] then path @ ''::'' @ part else part))
                      (Some (symbols symbol)) (Some 0))"
    and "child' = (if rest = [] then
                     TreeNode (node_name child) (node_size child + vmsize symbol)
                       (node_children child) (node_fullPath child) (node_originalSymbol child)
                       (map_option (\<lambda>c. c + instantiations symbol) (node_instantiations child))
                   else child)"
  shows "insertParts symbol path (part # rest) current =
           TreeNode (node_name current) (node_size current)
             (mapSet (node_children current) part
                (insertParts symbol (if path \<noteq> [] then path @ ''::'' @ part else part) rest child'))
             (node_fullPath current) (node_originalSymbol current) (node_instantiations current)"
  by (rule insertParts_step[OF assms(1) assms(3) _ assms(4)]) (simp add: assms(2))

lemma fieldsAt_Nil: "fieldsAt t [] = Some (ownFields t)"
  by (simp add: fieldsAt_def)

lemma fieldsAt_Cons:
  "fieldsAt t (p # ps) =
     (case map_of (node_children t) p of None \<Rightarrow> None | Some c \<Rightarrow> fieldsAt c ps)"
  by (simp add: fieldsAt_def split: option.splits)

lemma insertParts_fieldsAt:
  "goodParts parts \<Longrightarrow>
     fieldsAt (insertParts symbol path parts current) ps =
       (if ps \<noteq> [] \<and> take (length ps) parts = ps
        then Some ((if ps = parts then addTo symbol else id)
                     (case fieldsAt current ps of
                        Some f \<Rightarrow> f
                      | None \<Rightarrow> freshFields path ps symbol))
        else fieldsAt current ps)"
proof (induction parts arbitrary: path current ps)
  case Nil
  then show ?case by (cases ps) simp_all
next
  case (Cons part rest)
  from Cons.prems have part: "part \<noteq> []" and key: "part \<notin> set objectPrototypeKeys"
    and good: "goodParts rest"
    by (simp_all add: goodParts_Cons)
  define path' where "path' = (if path \<noteq> [] then path @ ''::'' @ part else part)"
  define child where "child = (case map_of (node_children current) part of
                    Some c \<Rightarrow> c
                  | None \<Rightarrow> TreeNode part 0 [] (Some path') (Some (symbols symbol)) (Some 0))"
  define child' where "child' = (if rest = [] then
                     TreeNode (node_name child) (node_size child + vmsize symbol)
                       (node_children child) (node_fullPath child) (node_originalSymbol child)
                       (map_option (\<lambda>c. c + instantiations symbol) (node_instantiations child))
                   else child)"
  define r where "r = insertParts symbol path' rest child'"
  have res: "insertParts symbol path (part # rest) current =
           TreeNode (node_name current) (node_size current)
             (mapSet (node_children current) part r)
             (node_fullPath current) (node_originalSymbol current) (node_instantiations current)"
    unfolding r_def path'_def
    by (rule insertParts_good[OF part key _ child'_def]) (unfold child_def path'_def, rule refl)
  show ?case
  proof (cases ps)
    case Nil
    then show ?thesis
      by (simp add: fieldsAt_Nil del: insertParts.simps)
  next
    case (Cons p ps')
    note ps = Cons
    show ?thesis
    proof (cases "p = part")
      case False
      then show ?thesis
        unfolding res ps by (simp add: fieldsAt_Cons map_of_mapSet)
    next
      case True
      have own_child': "ownFields child' =
          (if rest = [] then addTo symbol (ownFields child) else ownFields child)"
        by (simp add: child'_def ownFields_def addTo_def)
      have own_child: "ownFields child =
          (case fieldsAt current [part] of
             Some f \<Rightarrow> f
           | None \<Rightarrow> freshFields path [part] symbol)"
        by (simp add: child_def fieldsAt_Cons fieldsAt_Nil freshFields_def joinFrom_def
            path'_def ownFields_def split: option.splits)
      have below: "ps' \<noteq> [] \<Longrightarrow> fieldsAt child' ps' = fieldsAt current (part # ps')"
        by (cases ps')
           (auto simp: child'_def child_def fieldsAt_Cons split: option.splits)
      have at_r: "fieldsAt r ps' =
          (if ps' \<noteq> [] \<and> take (length ps') rest = ps'
           then Some ((if ps' = rest then addTo symbol else id)
                        (case fieldsAt child' ps' of
                           Some f \<Rightarrow> f
                         | None \<Rightarrow> freshFields path' ps' symbol))
           else fieldsAt child' ps')"
        unfolding r_def by (rule Cons.IH[OF good])
      have up: "fieldsAt (insertParts symbol path (part # rest) current) (part # ps') =
                  fieldsAt r ps'"
        unfolding res by (simp add: fieldsAt_Cons map_of_mapSet)
      show ?thesis
      proof (cases "ps' = []")
        case True
        have "fieldsAt r ps' = Some (ownFields child')"
          by (simp add: True fieldsAt_Nil r_def)
        also have "\<dots> = Some ((if [part] = part # rest then addTo symbol else id)
                     (case fieldsAt current [part] of
                        Some f \<Rightarrow> f
                      | None \<Rightarrow> freshFields path [part] symbol))"
          by (simp add: own_child' own_child)
        finally have "fieldsAt r ps' = Some ((if [part] = part # rest then addTo symbol else id)
                     (case fieldsAt current [part] of
                        Some f \<Rightarrow> f
                      | None \<Rightarrow> freshFields path [part] symbol))" .
        then show ?thesis
          unfolding ps \<open>p = part\<close> True by (simp add: up[unfolded True] del: insertParts.simps)
      next
        case False
        have fr: "freshFields path' ps' symbol = freshFields path (part # ps') symbol"
          using False by (simp add: freshFields_def joinFrom_Cons path'_def)
        have "fieldsAt r ps' =
          (if take (length ps') rest = ps'
           then Some ((if ps' = rest then addTo symbol else id)
                        (case fieldsAt current (part # ps') of
                           Some f \<Rightarrow> f
                         | None \<Rightarrow> freshFields path (part # ps') symbol))
           else fieldsAt current (part # ps'))"
          unfolding at_r below[OF False] fr using False by simp
        then show ?thesis
          unfolding ps \<open>p = part\<close> using False by (simp add: up del: insertParts.simps)
      qed
    qed
  qed
qed

lemma subtreeTotal_Nil: "subtreeTotal t [] = ownTotal t"
  by (simp add: subtreeTotal_def)

lemma subtreeTotal_Cons:
  "subtreeTotal t (p # ps) =
     (case map_of (node_children t) p of None \<Rightarrow> 0 | Some c \<Rightarrow> subtreeTotal c ps)"
  by (simp add: subtreeTotal_def split: option.splits)

lemma insertParts_subtreeTotal:
  "goodParts parts \<Longrightarrow>
     subtreeTotal (insertParts symbol path parts current) ps =
       subtreeTotal current ps +
         (if parts \<noteq> [] \<and> take (length ps) parts = ps then vmsize symbol else 0)"
proof (induction parts arbitrary: path current ps)
  case Nil
  then show ?case by simp
next
  case (Cons part rest)
  from Cons.prems have part: "part \<noteq> []" and key: "part \<notin> set objectPrototypeKeys"
    and good: "goodParts rest"
    by (simp_all add: goodParts_Cons)
  define path' where "path' = (if path \<noteq> [] then path @ ''::'' @ part else part)"
  define child where "child = (case map_of (node_children current) part of
                    Some c \<Rightarrow> c
                  | None \<Rightarrow> TreeNode part 0 [] (Some path') (Some (symbols symbol)) (Some 0))"
  define child' where "child' = (if rest = [] then
                     TreeNode (node_name child) (node_size child + vmsize symbol)
                       (node_children child) (node_fullPath child) (node_originalSymbol child)
                       (map_option (\<lambda>c. c + instantiations symbol) (node_instantiations child))
                   else child)"
  define r where "r = insertParts symbol path' rest child'"
  have res: "insertParts symbol path (part # rest) current =
           TreeNode (node_name current) (node_size current)
             (mapSet (node_children current) part r)
             (node_fullPath current) (node_originalSymbol current) (node_instantiations current)"
    unfolding r_def path'_def
    by (rule insertParts_good[OF part key _ child'_def]) (unfold child_def path'_def, rule refl)
  have at_child: "\<And>qs. subtreeTotal child qs = subtreeTotal current (part # qs)"
  proof -
    fix qs
    show "subtreeTotal child qs = subtreeTotal current (part # qs)"
      by (cases qs) (auto simp: child_def subtreeTotal_Cons subtreeTotal_Nil split: option.splits)
  qed
  have at_child': "\<And>qs. subtreeTotal child' qs =
      subtreeTotal child qs + (if rest = [] \<and> qs = [] then vmsize symbol else 0)"
  proof -
    fix qs
    show "subtreeTotal child' qs =
      subtreeTotal child qs + (if rest = [] \<and> qs = [] then vmsize symbol else 0)"
      by (cases child; cases qs) (auto simp: child'_def subtreeTotal_Cons subtreeTotal_Nil)
  qed
  have at_r: "\<And>qs. subtreeTotal r qs = subtreeTotal current (part # qs) +
      (if take (length qs) rest = qs then vmsize symbol else 0)"
  proof -
    fix qs
    have "subtreeTotal r qs = subtreeTotal child' qs +
        (if rest \<noteq> [] \<and> take (length qs) rest = qs then vmsize symbol else 0)"
      unfolding r_def by (rule Cons.IH[OF good])
    then show "subtreeTotal r qs = subtreeTotal current (part # qs) +
      (if take (length qs) rest = qs then vmsize symbol else 0)"
      unfolding at_child' at_child by auto
  qed
  show ?case
  proof (cases ps)
    case Nil
    have old: "(case map_of (node_children current) part of None \<Rightarrow> 0 | Some old \<Rightarrow> ownTotal old)
                 = subtreeTotal current [part]"
      by (simp add: subtreeTotal_Cons subtreeTotal_Nil split: option.splits)
    have "ownTotal r = subtreeTotal current [part] + vmsize symbol"
      using at_r[of "[]"] by (simp add: subtreeTotal_Nil)
    then have "ownTotal (insertParts symbol path (part # rest) current) =
        ownTotal current + vmsize symbol"
      unfolding res using old by (cases current) (simp add: ownTotalList_mapSet)
    then show ?thesis
      unfolding Nil by (simp add: subtreeTotal_Nil del: insertParts.simps)
  next
    case (Cons p ps')
    show ?thesis
    proof (cases "p = part")
      case False
      then show ?thesis
        unfolding res Cons by (simp add: subtreeTotal_Cons map_of_mapSet)
    next
      case True
      have "subtreeTotal (insertParts symbol path (part # rest) current) (part # ps') =
              subtreeTotal r ps'"
        unfolding res by (simp add: subtreeTotal_Cons map_of_mapSet)
      then show ?thesis
        unfolding Cons True using at_r[of ps'] by (simp del: insertParts.simps)
    qed
  qed
qed

lemma insertSymbols_snoc:
  "insertSymbols (records @ [r]) t =
     (case insertSymbols records t of
        None \<Rightarrow> None
      | Some t' \<Rightarrow>
          (case processSymbol (symbols r) of
             None \<Rightarrow> None
           | Some parts \<Rightarrow> Some (insertParts r [] parts t')))"
  by (induction records arbitrary: t) (auto split: option.splits)

lemma find_snoc:
  "find P (xs @ [x]) = (case find P xs of None \<Rightarrow> (if P x then Some x else None) | Some y \<Rightarrow> Some y)"
  by (induction xs) auto

lemma splitParts_shape:
  "splitParts s = [[]] \<or> (\<forall>p \<in> set (splitParts s). p \<noteq> [])"
  by (auto simp: splitParts_def startsWith_def)

lemma segments_nonempty: "\<forall>p \<in> set parts. p \<noteq> [] \<Longrightarrow> segments parts = parts"
  by (simp add: segments_def)

lemma passesThrough_self: "segmentsOf r = ps \<Longrightarrow> passesThrough ps r"
  by (auto simp: passesThrough_def)

lemma walk_cases:
  assumes parts: "processSymbol (symbols r) = Some parts"
    and keys: "\<forall>p \<in> set (segmentsOf r). p \<notin> set objectPrototypeKeys"
  shows "(segmentsOf r = [] \<and> (\<forall>t. insertParts r [] parts t = t)) \<or>
         (goodParts parts \<and> parts \<noteq> [] \<and> segmentsOf r = parts)"
proof -
  from parts obtain s where "parts = splitParts s"
    by (auto simp: processSymbol_def)
  then consider "parts = [[]]" | "\<forall>p \<in> set parts. p \<noteq> []"
    using splitParts_shape[of s] by auto
  then show ?thesis
  proof cases
    case 1
    then show ?thesis
      using parts by (simp add: segmentsOf_def segments_def)
  next
    case 2
    then have seg: "segmentsOf r = parts"
      using parts by (simp add: segmentsOf_def segments_nonempty)
    show ?thesis
    proof (cases "parts = []")
      case True
      then show ?thesis using seg by simp
    next
      case False
      then show ?thesis
        using 2 keys seg by (simp add: goodParts_def)
    qed
  qed
qed

lemma fieldsAt_emptyRoot: "ps \<noteq> [] \<Longrightarrow> fieldsAt emptyRoot ps = None"
  by (cases ps) (simp_all add: fieldsAt_def emptyRoot_def)

lemma subtreeTotal_emptyRoot: "subtreeTotal emptyRoot ps = 0"
  by (cases ps) (simp_all add: subtreeTotal_def emptyRoot_def)

lemma no_pass_no_end:
  "find (passesThrough ps) recs = None \<Longrightarrow> filter (\<lambda>r. segmentsOf r = ps) recs = []"
  by (auto simp: find_None_iff filter_empty_conv passesThrough_def)

lemma insertSymbols_fields:
  "(\<forall>r \<in> set recs. \<forall>p \<in> set (segmentsOf r). p \<notin> set objectPrototypeKeys) \<Longrightarrow>
   insertSymbols recs emptyRoot = Some t \<Longrightarrow>
     ownFields t = (''root'', 0, None, None, Some 0) \<and>
     (\<forall>ps. ps \<noteq> [] \<longrightarrow>
        fieldsAt t ps =
          (case find (passesThrough ps) recs of
             None \<Rightarrow> None
           | Some r0 \<Rightarrow>
               Some (last ps,
                     sum_list (map vmsize (filter (\<lambda>r. segmentsOf r = ps) recs)),
                     Some (joinPath ps), Some (symbols r0),
                     Some (sum_list (map instantiations (filter (\<lambda>r. segmentsOf r = ps) recs)))))) \<and>
     (\<forall>ps. subtreeTotal t ps =
        sum_list (map vmsize (filter (\<lambda>r. segmentsOf r \<noteq> [] \<and> passesThrough ps r) recs)))"
proof (induction recs arbitrary: t rule: rev_induct)
  case Nil
  then show ?case
    by (auto simp: fieldsAt_emptyRoot subtreeTotal_emptyRoot) (simp add: ownFields_def emptyRoot_def)
next
  case (snoc r recs)
  from snoc.prems(2) obtain t' parts where t': "insertSymbols recs emptyRoot = Some t'"
    and parts: "processSymbol (symbols r) = Some parts"
    and t: "t = insertParts r [] parts t'"
    by (auto simp: insertSymbols_snoc split: option.splits)
  from snoc.prems(1) have keys: "\<forall>p \<in> set (segmentsOf r). p \<notin> set objectPrototypeKeys"
    and keys': "\<forall>r \<in> set recs. \<forall>p \<in> set (segmentsOf r). p \<notin> set objectPrototypeKeys"
    by simp_all
  note IH = snoc.IH[OF keys' t']
  from IH have root: "ownFields t' = (''root'', 0, None, None, Some 0)" by (rule conjunct1)
  from IH have fields: "\<And>ps. ps \<noteq> [] \<Longrightarrow>
        fieldsAt t' ps =
          (case find (passesThrough ps) recs of
             None \<Rightarrow> None
           | Some r0 \<Rightarrow>
               Some (last ps,
                     sum_list (map vmsize (filter (\<lambda>r. segmentsOf r = ps) recs)),
                     Some (joinPath ps), Some (symbols r0),
                     Some (sum_list (map instantiations (filter (\<lambda>r. segmentsOf r = ps) recs)))))"
    by blast
  from IH have totals: "\<And>ps. subtreeTotal t' ps =
        sum_list (map vmsize (filter (\<lambda>r. segmentsOf r \<noteq> [] \<and> passesThrough ps r) recs))"
    by blast
  from walk_cases[OF parts keys] show ?case
  proof (elim disjE conjE)
    assume seg: "segmentsOf r = []" and same: "\<forall>t. insertParts r [] parts t = t"
    have tt: "t = t'" using same t by simp
    have np: "\<And>ps. ps \<noteq> [] \<Longrightarrow> \<not> passesThrough ps r"
      using seg by (auto simp: passesThrough_def)
    show ?thesis
      unfolding tt using root fields totals seg np
      by (auto simp: find_snoc split: option.splits)
  next
    assume good: "goodParts parts" and ne: "parts \<noteq> []" and seg: "segmentsOf r = parts"
    have pass: "\<And>ps. passesThrough ps r = (take (length ps) parts = ps)"
      by (simp add: passesThrough_def seg)
    have r1: "ownFields t = (''root'', 0, None, None, Some 0)"
      unfolding t using root by simp
    have r3: "\<And>ps. subtreeTotal t ps =
        sum_list (map vmsize (filter (\<lambda>r. segmentsOf r \<noteq> [] \<and> passesThrough ps r) (recs @ [r])))"
      unfolding t insertParts_subtreeTotal[OF good] totals
      using ne by (simp add: pass seg)
    have r2: "\<And>ps. ps \<noteq> [] \<Longrightarrow>
        fieldsAt t ps =
          (case find (passesThrough ps) (recs @ [r]) of
             None \<Rightarrow> None
           | Some r0 \<Rightarrow>
               Some (last ps,
                     sum_list (map vmsize (filter (\<lambda>r. segmentsOf r = ps) (recs @ [r]))),
                     Some (joinPath ps), Some (symbols r0),
                     Some (sum_list (map instantiations (filter (\<lambda>r. segmentsOf r = ps) (recs @ [r]))))))"
    proof -
      fix ps :: "string list"
      assume ps: "ps \<noteq> []"
      have ends: "parts = ps \<Longrightarrow> take (length ps) parts = ps" by simp
      show "fieldsAt t ps =
          (case find (passesThrough ps) (recs @ [r]) of
             None \<Rightarrow> None
           | Some r0 \<Rightarrow>
               Some (last ps,
                     sum_list (map vmsize (filter (\<lambda>r. segmentsOf r = ps) (recs @ [r]))),
                     Some (joinPath ps), Some (symbols r0),
                     Some (sum_list (map instantiations (filter (\<lambda>r. segmentsOf r = ps) (recs @ [r]))))))"
      proof (cases "find (passesThrough ps) recs")
        case None
        note none = no_pass_no_end[OF None]
        show ?thesis
          unfolding t insertParts_fieldsAt[OF good] fields[OF ps] find_snoc None
          using ps none ends
          by (auto simp: pass seg freshFields_def addTo_def joinPath_def)
      next
        case (Some r0)
        show ?thesis
          unfolding t insertParts_fieldsAt[OF good] fields[OF ps] find_snoc Some
          using ps ends
          by (auto simp: pass seg addTo_def)
      qed
    qed
    from r1 r2 r3 show ?thesis by blast
  qed
qed

lemma ownFields_calculateTotalSize:
  "ownFields (calculateTotalSize n) =
     (node_name n, ownTotal n, node_fullPath n, node_originalSymbol n, node_instantiations n)"
  by (cases n) (simp add: ownFields_def calculateTotalSize_total[symmetric] Let_def)

lemma processFile_fields:
  assumes build: "processFile lc rows = Some root"
    and keys: "\<forall>r \<in> set (canonicalRecords lc rows).
                 \<forall>p \<in> set (segmentsOf r). p \<notin> set objectPrototypeKeys"
  shows "ownFields root =
           (''root'',
            sum_list (map vmsize (filter (\<lambda>r. segmentsOf r \<noteq> []) (canonicalRecords lc rows))),
            None, None, Some 0)"
    and "ps \<noteq> [] \<Longrightarrow>
         fieldsAt root ps =
           (case find (passesThrough ps) (canonicalRecords lc rows) of
              None \<Rightarrow> None
            | Some r0 \<Rightarrow>
                Some (last ps,
                      sum_list (map vmsize (filter (passesThrough ps) (canonicalRecords lc rows))),
                      Some (joinPath ps), Some (symbols r0),
                      Some (sum_list (map instantiations
                              (filter (\<lambda>r. segmentsOf r = ps) (canonicalRecords lc rows))))))"
proof -
  let ?recs = "canonicalRecords lc rows"
  from build obtain t where t: "insertSymbols ?recs emptyRoot = Some t"
    and root: "root = calculateTotalSize t"
    by (auto simp: processFile_def canonicalRecords_def Let_def)
  note inv = insertSymbols_fields[OF keys t]
  from inv have top: "ownFields t = (''root'', 0, None, None, Some 0)"
    by (rule conjunct1)
  from inv have totals: "\<And>qs. subtreeTotal t qs =
      sum_list (map vmsize (filter (\<lambda>r. segmentsOf r \<noteq> [] \<and> passesThrough qs r) ?recs))"
    by blast
  have "ownTotal t = sum_list (map vmsize (filter (\<lambda>r. segmentsOf r \<noteq> []) ?recs))"
    using totals[of "[]"] by (simp add: subtreeTotal_def passesThrough_def)
  with top show "ownFields root =
           (''root'', sum_list (map vmsize (filter (\<lambda>r. segmentsOf r \<noteq> []) ?recs)),
            None, None, Some 0)"
    unfolding root ownFields_calculateTotalSize by (simp add: ownFields_def)
  assume ps: "ps \<noteq> []"
  from inv ps have at: "fieldsAt t ps =
          (case find (passesThrough ps) ?recs of
             None \<Rightarrow> None
           | Some r0 \<Rightarrow>
               Some (last ps,
                     sum_list (map vmsize (filter (\<lambda>r. segmentsOf r = ps) ?recs)),
                     Some (joinPath ps), Some (symbols r0),
                     Some (sum_list (map instantiations (filter (\<lambda>r. segmentsOf r = ps) ?recs)))))"
    by blast
  have through: "(\<lambda>r. segmentsOf r \<noteq> [] \<and> passesThrough ps r) = passesThrough ps"
    using ps by (auto simp: passesThrough_def)
  show "fieldsAt root ps =
           (case find (passesThrough ps) ?recs of
              None \<Rightarrow> None
            | Some r0 \<Rightarrow>
                Some (last ps,
                      sum_list (map vmsize (filter (passesThrough ps) ?recs)),
                      Some (joinPath ps), Some (symbols r0),
                      Some (sum_list (map instantiations
                              (filter (\<lambda>r. segmentsOf r = ps) ?recs)))))"
  proof (cases "nodeAt t ps")
    case None
    with at show ?thesis
      by (simp add: fieldsAt_def root nodeAt_calculateTotalSize split: option.splits)
  next
    case (Some n0)
    have "subtreeTotal t ps = ownTotal n0"
      by (simp add: subtreeTotal_def Some)
    then have "ownTotal n0 = sum_list (map vmsize (filter (passesThrough ps) ?recs))"
      using totals[of ps] by (simp add: through)
    moreover have "fieldsAt root ps =
        Some (node_name n0, ownTotal n0, node_fullPath n0, node_originalSymbol n0,
              node_instantiations n0)"
      by (simp add: fieldsAt_def root nodeAt_calculateTotalSize Some
          ownFields_calculateTotalSize)
    moreover from at Some have "Some (ownFields n0) =
          (case find (passesThrough ps) ?recs of
             None \<Rightarrow> None
           | Some r0 \<Rightarrow>
               Some (last ps,
                     sum_list (map vmsize (filter (\<lambda>r. segmentsOf r = ps) ?recs)),
                     Some (joinPath ps), Some (symbols r0),
                     Some (sum_list (map instantiations (filter (\<lambda>r. segmentsOf r = ps) ?recs)))))"
      by (simp add: fieldsAt_def)
    ultimately show ?thesis
      by (auto simp: ownFields_def split: option.splits)
  qed
qed

text \<open>
  Conservation where the builder achieves it: on rows that the definitions read as the
  source does, and with no segment of a canonical record among the property names of
  \<open>Object.prototype\<close>, the size of the root is the sum of the sizes of the canonical
  records that have a segment.
\<close>

lemma processFile_conservation:
  assumes "processFile lc rows = Some root"
    and "consistentCompare lc"
    and "\<forall>row \<in> set rows. keepRow row \<longrightarrow> declaredTypes row"
    and "\<forall>r \<in> set (canonicalRecords lc rows).
           \<forall>p \<in> set (segmentsOf r). p \<notin> set objectPrototypeKeys"
  shows "node_size root =
           sum_list (map vmsize (filter (\<lambda>r. segmentsOf r \<noteq> []) (canonicalRecords lc rows)))"
  using processFile_fields(1)[OF assms(1) assms(4)] by (simp add: ownFields_def)

section \<open>The trees of the builder are trees of the data model\<close>

lemma inherited_proto: "''__proto__'' \<in> set objectPrototypeKeys"
  by (simp add: objectPrototypeKeys_def)

lemma keyedChildren_mapSet:
  assumes "keyedChildren children" "k = node_name v" "k \<noteq> ''__proto__''" "keyedByName v"
  shows "keyedChildren (mapSet children k v)"
  using assms by (induction children k v rule: mapSet.induct) simp_all

lemma keyedChildren_lookup:
  "keyedChildren children \<Longrightarrow> map_of children p = Some c \<Longrightarrow> p = node_name c \<and> keyedByName c"
proof (induction children)
  case Nil
  then show ?case by simp
next
  case (Cons kc children)
  obtain k c' where kc: "kc = (k, c')" by (cases kc)
  show ?case
  proof (cases "k = p")
    case True
    with Cons.prems kc show ?thesis by simp
  next
    case False
    with Cons kc show ?thesis by simp
  qed
qed

lemma keyedByName_children:
  assumes "keyedByName t" "map_of (node_children t) p = Some c"
  shows "p = node_name c \<and> keyedByName c"
proof -
  from assms(1) have "keyedChildren (node_children t)"
    by (cases t) simp
  from keyedChildren_lookup[OF this assms(2)] show ?thesis .
qed

lemma insertParts_keyed:
  "keyedByName current \<Longrightarrow> builderTree current \<Longrightarrow>
     keyedByName (insertParts symbol path parts current)"
proof (induction parts arbitrary: path current)
  case Nil
  then show ?case by simp
next
  case (Cons part rest)
  show ?case
  proof (cases "part = []")
    case True
    with Cons show ?thesis by simp
  next
    case False
    note part = False
    show ?thesis
    proof (cases "map_of (node_children current) part = None \<and> part \<in> set objectPrototypeKeys")
      case True
      then have "insertParts symbol path (part # rest) current = current"
        using insertParts_inherited[OF part, of current symbol path rest] by blast
      with Cons.prems show ?thesis by simp
    next
      case False
      define path' where "path' = (if path \<noteq> [] then path @ ''::'' @ part else part)"
      define child where "child = (case map_of (node_children current) part of
                    Some c \<Rightarrow> c
                  | None \<Rightarrow> TreeNode part 0 [] (Some path') (Some (symbols symbol)) (Some 0))"
      define child' where "child' = (if rest = [] then
                     TreeNode (node_name child) (node_size child + vmsize symbol)
                       (node_children child) (node_fullPath child) (node_originalSymbol child)
                       (map_option (\<lambda>c. c + instantiations symbol) (node_instantiations child))
                   else child)"
      define r where "r = insertParts symbol path' rest child'"
      have res: "insertParts symbol path (part # rest) current =
           TreeNode (node_name current) (node_size current)
             (mapSet (node_children current) part r)
             (node_fullPath current) (node_originalSymbol current) (node_instantiations current)"
        unfolding r_def path'_def
        by (rule insertParts_step[OF part _ _ child'_def])
           (use False in \<open>unfold child_def path'_def, auto\<close>)
      have key: "part \<notin> set objectPrototypeKeys"
        using False builderTree_children[OF Cons.prems(2)]
        by (cases "map_of (node_children current) part") auto
      then have proto: "part \<noteq> ''__proto__''"
        using inherited_proto by blast
      have bchild: "builderTree child"
        using builderTree_children[OF Cons.prems(2)] by (auto simp: child_def split: option.splits)
      have kchild: "keyedByName child" and nchild: "node_name child = part"
        using keyedByName_children[OF Cons.prems(1)] by (auto simp: child_def split: option.splits)
      have bchild': "builderTree child'"
        using bchild by (cases child) (auto simp: child'_def)
      have kchild': "keyedByName child'"
        using kchild by (cases child) (simp add: child'_def)
      have nchild': "node_name child' = part"
        using nchild by (simp add: child'_def)
      have kr: "keyedByName r"
        unfolding r_def by (rule Cons.IH[OF kchild' bchild'])
      have nr: "part = node_name r"
        by (simp add: r_def nchild')
      obtain n s ch fp os i where cur: "current = TreeNode n s ch fp os i"
        by (cases current)
      from Cons.prems(1) have d: "distinct (map fst ch)" and kc: "keyedChildren ch"
        by (simp_all add: cur)
      have "distinct (map fst (mapSet ch part r))"
        using d by (rule distinct_mapSet)
      moreover have "keyedChildren (mapSet ch part r)"
        using kc nr proto kr by (rule keyedChildren_mapSet)
      ultimately have "keyedByName (TreeNode n s (mapSet ch part r) fp os i)"
        by simp
      then show ?thesis
        unfolding res by (simp add: cur)
    qed
  qed
qed

lemma calculateTotalSize_shape:
  "node_name (calculateTotalSize t) = node_name t \<and>
   keyedByName (calculateTotalSize t) = keyedByName t"
  and calculateChildren_shape:
  "map fst (calculateChildren children) = map fst children \<and>
   keyedChildren (calculateChildren children) = keyedChildren children"
  by (induction t and children rule: calculateTotalSize_calculateChildren.induct)
     (simp_all add: Let_def)

lemma insertSymbols_keyed:
  assumes "insertSymbols records t = Some t'" "keyedByName t" "builderTree t"
  shows "keyedByName t'"
  using assms
proof (induction records arbitrary: t)
  case Nil
  then show ?case by simp
next
  case (Cons r records)
  from Cons.prems(1) obtain parts where
    rest: "insertSymbols records (insertParts r [] parts t) = Some t'"
    by (auto split: option.splits)
  from insertParts_builder[OF Cons.prems(3), of r "[]" parts]
  have b: "builderTree (insertParts r [] parts t)" .
  from insertParts_keyed[OF Cons.prems(2,3), of r "[]" parts]
  have k: "keyedByName (insertParts r [] parts t)" .
  from Cons.IH[OF rest k b] show ?case .
qed

text \<open>
  Every tree that the build returns is keyed by name, which is what the frame property
  of the merge pass asks of its input. As the other statements about the hierarchy of a
  build, this one is made for the rows that the build reads exactly.
\<close>

lemma processFile_keyed:
  assumes "processFile lc rows = Some root"
    and "consistentCompare lc"
    and "\<forall>row \<in> set rows. keepRow row \<longrightarrow> declaredTypes row"
    and "\<forall>r \<in> set (canonicalRecords lc rows).
           \<forall>p \<in> set (segmentsOf r). p \<notin> set objectPrototypeKeys"
  shows "keyedByName root"
proof -
  from assms(1) obtain t where t: "insertSymbols (canonicalRecords lc rows) emptyRoot = Some t"
    and root: "root = calculateTotalSize t"
    by (auto simp: processFile_def canonicalRecords_def Let_def)
  have "keyedByName emptyRoot"
    by (simp add: emptyRoot_def)
  from insertSymbols_keyed[OF t this builderTree_emptyRoot] show ?thesis
    by (simp add: root calculateTotalSize_shape)
qed

section \<open>Where the keyword loop ends\<close>

lemma startsWith_includes: "startsWith s p \<Longrightarrow> includesStr s p"
  by (cases s) (auto simp: startsWith_def)

lemma includesStr_drop: "includesStr (drop n s) p \<Longrightarrow> includesStr s p"
proof (induction s arbitrary: n)
  case Nil
  then show ?case by simp
next
  case (Cons c cs)
  then show ?case by (cases n) auto
qed

lemma indexOf_space_bounds:
  "CHR '' '' \<in> set s \<Longrightarrow> 0 \<le> indexOf s '' '' \<and> indexOf s '' '' < int (length s)"
  by (induction s) (auto simp: startsWith_def Let_def)

lemma startsWith_space_mem:
  "startsWith s (kw @ '' '') \<Longrightarrow> CHR '' '' \<in> set s"
proof -
  assume "startsWith s (kw @ '' '')"
  then have "take (length (kw @ '' '')) s = kw @ '' ''"
    by (simp add: startsWith_def)
  then have "CHR '' '' \<in> set (take (length (kw @ '' '')) s)"
    by simp
  then show ?thesis
    by (rule in_set_takeD)
qed

text \<open>
  The loop ends on every name that holds neither \<open>void*\<close> nor \<open>char*\<close>: each of the
  other keywords is tested with its space, so every iteration drops at least that space.
\<close>

lemma stripKeywords_returns:
  "\<not> includesStr s ''void*'' \<Longrightarrow> \<not> includesStr s ''char*'' \<Longrightarrow> \<exists>y. stripKeywords s = Some y"
proof (induction "length s" arbitrary: s rule: less_induct)
  case less
  show ?case
  proof (cases "startsKeyword s")
    case False
    then show ?thesis by (simp add: stripKeywords_done)
  next
    case True
    from less.prems have nv: "\<not> startsWith s ''void*''" and nc: "\<not> startsWith s ''char*''"
      using startsWith_includes by blast+
    with True have sp: "CHR '' '' \<in> set s"
      unfolding startsKeyword_def
      using startsWith_space_mem[of s "''void''"] startsWith_space_mem[of s "''auto''"]
        startsWith_space_mem[of s "''int''"] startsWith_space_mem[of s "''char''"]
        startsWith_space_mem[of s "''long''"] startsWith_space_mem[of s "''short''"]
        startsWith_space_mem[of s "''unsigned''"] startsWith_space_mem[of s "''float''"]
        startsWith_space_mem[of s "''double''"] startsWith_space_mem[of s "''bool''"]
        startsWith_space_mem[of s "''const''"] startsWith_space_mem[of s "''volatile''"]
        startsWith_space_mem[of s "''restrict''"]
      by auto
    define n where "n = nat (indexOf s '' '' + 1)"
    from indexOf_space_bounds[OF sp] have n: "0 < n" "n \<le> length s"
      and sl: "sliceFrom s (indexOf s '' '' + 1) = drop n s"
      by (auto simp: n_def sliceFrom_def)
    from sp have "s \<noteq> []" by auto
    with n have shorter: "length (drop n s) < length s"
      by simp
    have "\<not> includesStr (drop n s) ''void*''" "\<not> includesStr (drop n s) ''char*''"
      using less.prems includesStr_drop by blast+
    from less.hyps[OF shorter this] obtain y where "stripKeywords (drop n s) = Some y"
      by blast
    with True sl have "stripKeywords s = Some y"
      by (subst stripKeywords.simps) simp
    then show ?thesis by blast
  qed
qed

lemma insertSymbols_returns:
  assumes "\<forall>r \<in> set records. \<exists>parts. processSymbol (symbols r) = Some parts"
  shows "\<exists>t'. insertSymbols records t = Some t'"
  using assms
proof (induction records arbitrary: t)
  case Nil
  then show ?case by simp
next
  case (Cons r records)
  from Cons.prems obtain parts where "processSymbol (symbols r) = Some parts"
    by auto
  moreover from Cons have "\<exists>t'. insertSymbols records (insertParts r [] parts t) = Some t'"
    by simp
  ultimately show ?case by simp
qed

text \<open>
  The build returns on every row list none of whose canonical names holds \<open>void*\<close> or
  \<open>char*\<close>.
\<close>

lemma processFile_returns:
  assumes "\<forall>r \<in> set (canonicalRecords lc rows).
             \<not> includesStr (symbols r) ''void*'' \<and> \<not> includesStr (symbols r) ''char*''"
  shows "\<exists>root. processFile lc rows = Some root"
proof -
  have "\<forall>r \<in> set (canonicalRecords lc rows). \<exists>parts. processSymbol (symbols r) = Some parts"
  proof
    fix r assume "r \<in> set (canonicalRecords lc rows)"
    with assms obtain y where "stripKeywords (symbols r) = Some y"
      using stripKeywords_returns by blast
    then show "\<exists>parts. processSymbol (symbols r) = Some parts"
      by (simp add: processSymbol_def)
  qed
  from insertSymbols_returns[OF this, of emptyRoot] show ?thesis
    by (auto simp: processFile_def canonicalRecords_def Let_def)
qed

section \<open>The build and the merge pass\<close>

text \<open>
  C2, as stated, fails: the tree that the build returns for the single row
  \<open>{"foo", 10, 0}\<close> has the leaf \<open>foo\<close> with the count 0 that insertion gave it, while
  the group of leaves with the base name \<open>foo\<close> has one member. \<open>processFile\<close> never
  calls \<open>mergeInstantiations\<close>.
\<close>

theorem processFile_not_merged_counterexample:
  "processFile codeUnitCompare [csvRow ''foo'' 10 0] =
     Some (TreeNode ''root'' 10
             [(''foo'', TreeNode ''foo'' 10 [] (Some ''foo'') (Some ''foo'') (Some 0))]
             None None (Some 0)) \<and>
   map_option group_count
     (map_of
        (collectGroups
           [TreeNode ''root'' 10
              [(''foo'', TreeNode ''foo'' 10 [] (Some ''foo'') (Some ''foo'') (Some 0))]
              None None (Some 0)])
        (nodeBaseName ''foo'')) = Some 1 \<and>
   mergeInstantiations
     [TreeNode ''root'' 10
        [(''foo'', TreeNode ''foo'' 10 [] (Some ''foo'') (Some ''foo'') (Some 0))]
        None None (Some 0)] =
     [TreeNode ''root'' 10
        [(''foo'', TreeNode ''foo'' 10 [] (Some ''foo'') (Some ''foo'') (Some 1))]
        None None (Some 0)]"
  by (simp add: build_eval mergeInstantiations_def collectGroups_def addLeaf_def
      assignProp_def leafBaseName_def nodeBaseName_def)

text \<open>
  C2, amended. The build operation performs the pipeline from the normalizer to the
  aggregation pass and does not apply the variant-merge pass. Take any input row list
  whose kept rows have the declared types (a number as size, a number or nothing as
  count), with a \<open>localeCompare\<close> that is a consistent comparator, on whose canonical
  names the segmenter returns, and with no segment of a canonical record among the
  property names of \<open>Object.prototype\<close>. Then the build returns, and the hierarchy it
  returns is the following. The root is named \<open>root\<close>, has no full path and no original
  symbol, the count 0, and as size the sum of the sizes of the canonical records that
  have a segment. There is a node at a non-empty path of child keys exactly when a
  canonical record passes through that path, that is, when the path is an initial piece
  of the record's segments. That node is named by the last key of the path; its full
  path is the path joined by \<open>::\<close>; its original symbol is the name of the first
  canonical record that passes through the path; its size is the sum of the sizes of the
  canonical records that pass through the path; and its instantiation count is the count
  accumulated at insertion, the sum of the counts of the canonical records whose segments
  are that path (0 when there is none), not the member count of a group of leaves.

  The first two conditions and the last one are those under which the definitions of the
  normalizer, of \<open>toCSVRow\<close> and of \<open>insertParts\<close> read the rows as the source does.
\<close>

theorem processFile_builds_hierarchy:
  assumes "consistentCompare lc"
    and "\<forall>row \<in> set rows. keepRow row \<longrightarrow> declaredTypes row"
    and "\<forall>r \<in> set (canonicalRecords lc rows). processSymbol (symbols r) \<noteq> None"
    and "\<forall>r \<in> set (canonicalRecords lc rows).
           \<forall>p \<in> set (segmentsOf r). p \<notin> set objectPrototypeKeys"
  shows "\<exists>root. processFile lc rows = Some root \<and>
         node_name root = ''root'' \<and> node_fullPath root = None \<and>
         node_originalSymbol root = None \<and> node_instantiations root = Some 0 \<and>
         node_size root =
           sum_list (map vmsize (filter (\<lambda>r. segmentsOf r \<noteq> []) (canonicalRecords lc rows))) \<and>
         (\<forall>ps. ps \<noteq> [] \<longrightarrow>
            (nodeAt root ps \<noteq> None) =
              (\<exists>r \<in> set (canonicalRecords lc rows). passesThrough ps r)) \<and>
         (\<forall>ps n. ps \<noteq> [] \<and> nodeAt root ps = Some n \<longrightarrow>
            node_name n = last ps \<and>
            node_fullPath n = Some (joinPath ps) \<and>
            node_originalSymbol n =
              map_option symbols (find (passesThrough ps) (canonicalRecords lc rows)) \<and>
            node_size n =
              sum_list (map vmsize (filter (passesThrough ps) (canonicalRecords lc rows))) \<and>
            node_instantiations n =
              Some (sum_list (map instantiations
                      (filter (\<lambda>r. segmentsOf r = ps) (canonicalRecords lc rows)))))"
proof -
  let ?recs = "canonicalRecords lc rows"
  from assms(3) have "\<forall>r \<in> set ?recs. \<exists>parts. processSymbol (symbols r) = Some parts"
    by simp
  from insertSymbols_returns[OF this, of emptyRoot]
  obtain root where build: "processFile lc rows = Some root"
    by (auto simp: processFile_def canonicalRecords_def Let_def)
  note top = processFile_fields(1)[OF build assms(4)]
  note below = processFile_fields(2)[OF build assms(4)]
  have exists: "\<And>ps. ps \<noteq> [] \<Longrightarrow>
      (nodeAt root ps \<noteq> None) = (\<exists>r \<in> set ?recs. passesThrough ps r)"
  proof -
    fix ps :: "string list"
    assume ps: "ps \<noteq> []"
    have "(nodeAt root ps \<noteq> None) = (fieldsAt root ps \<noteq> None)"
      by (simp add: fieldsAt_def)
    also have "\<dots> = (find (passesThrough ps) ?recs \<noteq> None)"
      unfolding below[OF ps] by (simp split: option.splits)
    also have "\<dots> = (\<exists>r \<in> set ?recs. passesThrough ps r)"
      by (auto simp: find_None_iff)
    finally show "(nodeAt root ps \<noteq> None) = (\<exists>r \<in> set ?recs. passesThrough ps r)" .
  qed
  have nodes: "\<And>ps n. ps \<noteq> [] \<and> nodeAt root ps = Some n \<Longrightarrow>
            node_name n = last ps \<and>
            node_fullPath n = Some (joinPath ps) \<and>
            node_originalSymbol n = map_option symbols (find (passesThrough ps) ?recs) \<and>
            node_size n = sum_list (map vmsize (filter (passesThrough ps) ?recs)) \<and>
            node_instantiations n =
              Some (sum_list (map instantiations (filter (\<lambda>r. segmentsOf r = ps) ?recs)))"
  proof -
    fix ps :: "string list" and n
    assume "ps \<noteq> [] \<and> nodeAt root ps = Some n"
    then have ps: "ps \<noteq> []" and n: "nodeAt root ps = Some n" by simp_all
    from below[OF ps] n
    have "Some (ownFields n) =
        (case find (passesThrough ps) ?recs of
           None \<Rightarrow> None
         | Some r0 \<Rightarrow>
             Some (last ps, sum_list (map vmsize (filter (passesThrough ps) ?recs)),
                   Some (joinPath ps), Some (symbols r0),
                   Some (sum_list (map instantiations
                           (filter (\<lambda>r. segmentsOf r = ps) ?recs)))))"
      by (simp add: fieldsAt_def)
    then show "node_name n = last ps \<and>
            node_fullPath n = Some (joinPath ps) \<and>
            node_originalSymbol n = map_option symbols (find (passesThrough ps) ?recs) \<and>
            node_size n = sum_list (map vmsize (filter (passesThrough ps) ?recs)) \<and>
            node_instantiations n =
              Some (sum_list (map instantiations (filter (\<lambda>r. segmentsOf r = ps) ?recs)))"
      by (auto simp: ownFields_def split: option.splits)
  qed
  from top have "node_name root = ''root'' \<and> node_fullPath root = None \<and>
         node_originalSymbol root = None \<and> node_instantiations root = Some 0 \<and>
         node_size root = sum_list (map vmsize (filter (\<lambda>r. segmentsOf r \<noteq> []) ?recs))"
    by (simp add: ownFields_def)
  with build exists nodes show ?thesis
    by blast
qed

text \<open>
  The amended C2 at four rows, two of which collapse into the record \<open>a.c\<close>. Three
  canonical records pass through the path \<open>a\<close> and one through \<open>a\<close>, \<open>c\<close>: the node
  \<open>c\<close> under \<open>a\<close> has the size 12 and the count 1 of that record, and the node \<open>a\<close> has
  the size 25 of the three records and the count 4 of the record \<open>a\<close>.
\<close>

theorem processFile_builds_hierarchy_witness:
  "processFile codeUnitCompare
     [csvRow ''a.b'' 10 0, csvRow ''a.c__anon_1'' 5 0, csvRow ''a.c__anon_2'' 7 0,
      csvRow ''a'' 3 4] =
     Some (TreeNode ''root'' 25
             [(''a'', TreeNode ''a'' 25
                 [(''b'', TreeNode ''b'' 10 [] (Some ''a::b'') (Some ''a.b'') (Some 0)),
                  (''c'', TreeNode ''c'' 12 [] (Some ''a::c'') (Some ''a.c'') (Some 1))]
                 (Some ''a'') (Some ''a.b'') (Some 4))]
             None None (Some 0)) \<and>
   canonicalRecords codeUnitCompare
     [csvRow ''a.b'' 10 0, csvRow ''a.c__anon_1'' 5 0, csvRow ''a.c__anon_2'' 7 0,
      csvRow ''a'' 3 4] =
     [\<lparr> symbols = ''a.b'', vmsize = 10, instantiations = 0 \<rparr>,
      \<lparr> symbols = ''a.c'', vmsize = 12, instantiations = 1 \<rparr>,
      \<lparr> symbols = ''a'', vmsize = 3, instantiations = 4 \<rparr>] \<and>
   (25::int) =
     sum_list (map vmsize (filter (\<lambda>r. segmentsOf r \<noteq> [])
       (canonicalRecords codeUnitCompare
          [csvRow ''a.b'' 10 0, csvRow ''a.c__anon_1'' 5 0, csvRow ''a.c__anon_2'' 7 0,
           csvRow ''a'' 3 4]))) \<and>
   Some ''a.c'' =
     map_option symbols (find (passesThrough [''a'', ''c''])
       (canonicalRecords codeUnitCompare
          [csvRow ''a.b'' 10 0, csvRow ''a.c__anon_1'' 5 0, csvRow ''a.c__anon_2'' 7 0,
           csvRow ''a'' 3 4])) \<and>
   (12::int) =
     sum_list (map vmsize (filter (passesThrough [''a'', ''c''])
       (canonicalRecords codeUnitCompare
          [csvRow ''a.b'' 10 0, csvRow ''a.c__anon_1'' 5 0, csvRow ''a.c__anon_2'' 7 0,
           csvRow ''a'' 3 4]))) \<and>
   Some (1::int) =
     Some (sum_list (map instantiations (filter (\<lambda>r. segmentsOf r = [''a'', ''c''])
       (canonicalRecords codeUnitCompare
          [csvRow ''a.b'' 10 0, csvRow ''a.c__anon_1'' 5 0, csvRow ''a.c__anon_2'' 7 0,
           csvRow ''a'' 3 4])))) \<and>
   (25::int) =
     sum_list (map vmsize (filter (passesThrough [''a''])
       (canonicalRecords codeUnitCompare
          [csvRow ''a.b'' 10 0, csvRow ''a.c__anon_1'' 5 0, csvRow ''a.c__anon_2'' 7 0,
           csvRow ''a'' 3 4]))) \<and>
   Some (4::int) =
     Some (sum_list (map instantiations (filter (\<lambda>r. segmentsOf r = [''a''])
       (canonicalRecords codeUnitCompare
          [csvRow ''a.b'' 10 0, csvRow ''a.c__anon_1'' 5 0, csvRow ''a.c__anon_2'' 7 0,
           csvRow ''a'' 3 4]))))"
proof -
  let ?rows = "[csvRow ''a.b'' 10 0, csvRow ''a.c__anon_1'' 5 0, csvRow ''a.c__anon_2'' 7 0,
      csvRow ''a'' 3 4]"
  let ?recs = "canonicalRecords codeUnitCompare ?rows"
  let ?c = "TreeNode ''c'' 12 [] (Some ''a::c'') (Some ''a.c'') (Some 1)"
  let ?a = "TreeNode ''a'' 25
                 [(''b'', TreeNode ''b'' 10 [] (Some ''a::b'') (Some ''a.b'') (Some 0)),
                  (''c'', ?c)]
                 (Some ''a'') (Some ''a.b'') (Some 4)"
  let ?root = "TreeNode ''root'' 25 [(''a'', ?a)] None None (Some 0)"
  have ev: "processFile codeUnitCompare ?rows = Some ?root"
    by (simp add: build_eval)
  have recs: "?recs =
     [\<lparr> symbols = ''a.b'', vmsize = 10, instantiations = 0 \<rparr>,
      \<lparr> symbols = ''a.c'', vmsize = 12, instantiations = 1 \<rparr>,
      \<lparr> symbols = ''a'', vmsize = 3, instantiations = 4 \<rparr>]"
    by (simp add: build_eval)
  have declared: "\<forall>row \<in> set ?rows. keepRow row \<longrightarrow> declaredTypes row"
    by (simp add: declaredTypes_def csvRow_def isNumber_def)
  have returns: "\<forall>r \<in> set ?recs. processSymbol (symbols r) \<noteq> None"
    unfolding recs by (simp add: build_eval)
  have keys: "\<forall>r \<in> set ?recs. \<forall>p \<in> set (segmentsOf r). p \<notin> set objectPrototypeKeys"
    unfolding recs by (auto simp add: segmentsOf_def segments_def build_eval)
  from processFile_builds_hierarchy[OF consistent_codeUnitCompare declared returns keys]
  obtain root where build: "processFile codeUnitCompare ?rows = Some root"
    and top: "node_size root = sum_list (map vmsize (filter (\<lambda>r. segmentsOf r \<noteq> []) ?recs))"
    and below: "\<forall>ps n. ps \<noteq> [] \<and> nodeAt root ps = Some n \<longrightarrow>
            node_name n = last ps \<and>
            node_fullPath n = Some (joinPath ps) \<and>
            node_originalSymbol n = map_option symbols (find (passesThrough ps) ?recs) \<and>
            node_size n = sum_list (map vmsize (filter (passesThrough ps) ?recs)) \<and>
            node_instantiations n =
              Some (sum_list (map instantiations (filter (\<lambda>r. segmentsOf r = ps) ?recs)))"
    by blast
  from build ev have root: "root = ?root"
    by simp
  have at_c: "[''a'', ''c''] \<noteq> [] \<and> nodeAt ?root [''a'', ''c''] = Some ?c"
    by simp
  have at_a: "[''a''] \<noteq> [] \<and> nodeAt ?root [''a''] = Some ?a"
    by simp
  from below[unfolded root, rule_format, OF at_c] below[unfolded root, rule_format, OF at_a]
    top[unfolded root] ev recs
  show ?thesis
    by (simp only: TreeNode.sel simp_thms)
qed

end
